theory Spec2Isabelle
  imports Main "HOL-Library.Word"
begin

unbundle bit_operations_syntax

section \<open>The vring of hw/dataplane/vring.c\<close>

text \<open>
  A shallow embedding of the split virtqueue engine of \<^verbatim>\<open>hw/dataplane/vring.c\<close>:
  \<^verbatim>\<open>vring_should_notify\<close>, \<^verbatim>\<open>get_indirect\<close>, \<^verbatim>\<open>vring_pop\<close> and \<^verbatim>\<open>vring_push\<close>.
  C's \<^verbatim>\<open>uint16_t\<close>, \<^verbatim>\<open>unsigned int\<close> and \<^verbatim>\<open>uint64_t\<close> are words of 16, 32 and 64
  bits, so every index wraps the way the C does. Guest memory is read sequentially:
  the guest does not write while one call runs, and the fences \<^verbatim>\<open>mb()\<close> and
  \<^verbatim>\<open>barrier()\<close> have no effect on the values computed.
\<close>

subsection \<open>Header constants\<close>

text \<open>
  Modelled from the spec: \<^verbatim>\<open>hw/virtio.h\<close> and the ring header that declare these
  macros are not part of the sources at hand. The spec asks for the standard
  split-virtqueue layout (descriptor size, flag bit positions), which fixes the values
  below. The two feature macros are bit numbers: \<^verbatim>\<open>vring_pop\<close>,
  \<^verbatim>\<open>vring_disable_notification\<close> and \<^verbatim>\<open>vring_enable_notification\<close> test the
  event-index feature with \<^verbatim>\<open>guest_features & (1 << VIRTIO_RING_F_EVENT_IDX)\<close>.
\<close>

definition VIRTIO_F_NOTIFY_ON_EMPTY :: nat where
  "VIRTIO_F_NOTIFY_ON_EMPTY = 24"

definition VIRTIO_RING_F_EVENT_IDX :: nat where
  "VIRTIO_RING_F_EVENT_IDX = 29"

definition VRING_DESC_F_NEXT :: "16 word" where
  "VRING_DESC_F_NEXT = 1"

definition VRING_DESC_F_WRITE :: "16 word" where
  "VRING_DESC_F_WRITE = 2"

definition VRING_DESC_F_INDIRECT :: "16 word" where
  "VRING_DESC_F_INDIRECT = 4"

definition VRING_AVAIL_F_NO_INTERRUPT :: "16 word" where
  "VRING_AVAIL_F_NO_INTERRUPT = 1"

text \<open>\<^verbatim>\<open>sizeof(struct vring_desc)\<close>: 8 + 4 + 2 + 2 bytes.\<close>

definition sizeof_desc :: nat where
  "sizeof_desc = 16"

text \<open>\<^verbatim>\<open>USHRT_MAX\<close> of \<^verbatim>\<open>limits.h\<close>.\<close>

definition USHRT_MAX :: nat where
  "USHRT_MAX = 65535"

subsection \<open>Data\<close>

text \<open>\<^verbatim>\<open>struct vring_desc { addr; len; flags; next }\<close>.\<close>

record vring_desc =
  desc_addr :: "64 word"
  desc_len :: "32 word"
  desc_flags :: "16 word"
  desc_next :: "16 word"

text \<open>
  \<^verbatim>\<open>struct vring_avail\<close>, owned by the guest. The field \<open>used_event\<close> is the slot
  \<^verbatim>\<open>avail->ring[num]\<close> that the macro \<^verbatim>\<open>vring_used_event\<close> names.
\<close>

record vring_avail =
  avail_flags :: "16 word"
  avail_idx :: "16 word"
  avail_ring :: "nat \<Rightarrow> 16 word"
  used_event :: "16 word"

record vring_used_elem =
  elem_id :: "32 word"
  elem_len :: "32 word"

text \<open>
  \<^verbatim>\<open>struct vring_used\<close>, written by the host. The field \<open>avail_event\<close> is the slot
  after \<^verbatim>\<open>used->ring[num - 1]\<close> that the macro \<^verbatim>\<open>vring_avail_event\<close> names.
\<close>

record vring_used =
  used_flags :: "16 word"
  used_idx :: "16 word"
  used_ring :: "nat \<Rightarrow> vring_used_elem"
  avail_event :: "16 word"

text \<open>\<^verbatim>\<open>struct vring { num; desc; avail; used }\<close>, with the memory the three pointers reach.\<close>

record vring =
  num :: "32 word"
  desc :: "nat \<Rightarrow> vring_desc"
  avail :: vring_avail
  used :: vring_used

text \<open>
  Modelled from the spec: \<^verbatim>\<open>hostmem.c\<close> is not part of the sources at hand. It is the
  spec's Memory Translator, \<^verbatim>\<open>translate(addr, len, writable)\<close>, which gives a local
  pointer or fails. \<open>hostmem_lookup\<close> returns the host pointer, 0 for \<^verbatim>\<open>NULL\<close>;
  \<open>load_desc\<close> is the descriptor stored at a host pointer (\<^verbatim>\<open>*desc_ptr\<close>).
\<close>

record HostMem =
  hostmem_lookup :: "64 word \<Rightarrow> 64 word \<Rightarrow> bool \<Rightarrow> 64 word"
  load_desc :: "64 word \<Rightarrow> vring_desc"

text \<open>The \<^verbatim>\<open>Vring\<close> of \<^verbatim>\<open>hw/dataplane/vring.h\<close>, with the fields vring.c uses.\<close>

record Vring =
  vr :: vring
  hostmem :: HostMem
  last_avail_idx :: "16 word"
  last_used_idx :: "16 word"
  signalled_used :: "16 word"
  signalled_used_valid :: bool
  broken :: bool

text \<open>Of \<^verbatim>\<open>VirtIODevice\<close> vring.c reads \<^verbatim>\<open>guest_features\<close> only.\<close>

record VirtIODevice =
  guest_features :: "32 word"

subsection \<open>vring_should_notify\<close>

text \<open>
  Modelled from the spec: the macro \<^verbatim>\<open>vring_need_event\<close> of the ring header is not
  part of the sources at hand. The spec: a wraparound-safe comparison of the
  guest-published event index against the pair (old \<open>signalled_used\<close>, new
  \<open>last_used_idx\<close>), true when the event index falls within that interval.
\<close>

definition vring_need_event :: "16 word \<Rightarrow> 16 word \<Rightarrow> 16 word \<Rightarrow> bool" where
  "vring_need_event event_idx new_idx old = (new_idx - event_idx - 1 < new_idx - old)"

text \<open>
  The two feature tests of this function use the macros as masks
  (\<^verbatim>\<open>guest_features & VIRTIO_F_NOTIFY_ON_EMPTY\<close>,
  \<^verbatim>\<open>guest_features & VIRTIO_RING_F_EVENT_IDX\<close>), without the shift the other
  functions of the file apply.
\<close>

definition vring_should_notify :: "VirtIODevice \<Rightarrow> Vring \<Rightarrow> bool \<times> Vring" where
  "vring_should_notify vdev vring =
     (if guest_features vdev AND of_nat VIRTIO_F_NOTIFY_ON_EMPTY \<noteq> 0 \<and>
         avail_idx (avail (vr vring)) = last_avail_idx vring
      then (True, vring)
      else if \<not> (guest_features vdev AND of_nat VIRTIO_RING_F_EVENT_IDX \<noteq> 0)
      then (\<not> (avail_flags (avail (vr vring)) AND VRING_AVAIL_F_NO_INTERRUPT \<noteq> 0), vring)
      else
        let old = signalled_used vring;
            v = signalled_used_valid vring;
            new = last_used_idx vring;
            vring' = vring\<lparr>signalled_used := new, signalled_used_valid := True\<rparr>
        in if \<not> v then (True, vring')
           else (vring_need_event (used_event (avail (vr vring))) new old, vring'))"

text \<open>
  A feature is negotiated when its bit is set in \<^verbatim>\<open>guest_features\<close>: the test
  \<^verbatim>\<open>guest_features & (1 << bit)\<close> of \<^verbatim>\<open>vring_pop\<close> and of the two notification
  switches.
\<close>

definition feature_negotiated :: "VirtIODevice \<Rightarrow> nat \<Rightarrow> bool" where
  "feature_negotiated vdev b = (guest_features vdev AND push_bit b 1 \<noteq> 0)"

subsection \<open>vring_push\<close>

text \<open>
  \<^verbatim>\<open>void vring_push(Vring *vring, unsigned int head, int len)\<close>. The result is the
  \<^verbatim>\<open>Vring\<close> after the call; \<open>None\<close> is the division by zero of
  \<^verbatim>\<open>last_used_idx % vr.num\<close> when \<^verbatim>\<open>vr.num\<close> is 0. The \<^verbatim>\<open>int\<close> \<open>len\<close> is given by
  its 32 bits, which the assignment to the \<^verbatim>\<open>uint32_t\<close> field keeps. The test at the end is
  \<^verbatim>\<open>(int16_t)(new - signalled_used) < (uint16_t)1\<close>: the 16-bit difference read as
  two's complement, compared with 1.
\<close>

definition vring_push :: "Vring \<Rightarrow> 32 word \<Rightarrow> 32 word \<Rightarrow> Vring option" where
  "vring_push vring head len =
     (if broken vring then Some vring
      else if num (vr vring) = 0 then None
      else
        let k = unat (last_used_idx vring) mod unat (num (vr vring));
            u = used (vr vring);
            u1 = u\<lparr>used_ring := (used_ring u)(k := \<lparr>elem_id = head, elem_len = len\<rparr>)\<rparr>;
            new = last_used_idx vring + 1;
            vring1 = vring\<lparr>last_used_idx := new,
                           vr := (vr vring)\<lparr>used := u1\<lparr>used_idx := new\<rparr>\<rparr>\<rparr>
        in if sint (new - signalled_used vring) < 1
           then Some (vring1\<lparr>signalled_used_valid := False\<rparr>)
           else Some vring1)"


subsection \<open>Results and caller memory\<close>

datatype errno = EFAULT | EAGAIN | ENOBUFS

text \<open>
  The \<^verbatim>\<open>int\<close> that \<^verbatim>\<open>get_indirect\<close> and \<^verbatim>\<open>vring_pop\<close> return: a value that is not
  negative (0, or the head index), or \<^verbatim>\<open>-errno\<close>.
\<close>

datatype retval = Ret "32 word" | Fail errno

text \<open>The calls of \<^verbatim>\<open>error_report\<close>, one constructor for each call site.\<close>

datatype report =
    Invalid_indirect_length
  | Indirect_too_big
  | Failed_to_map_indirect_descriptor
  | Indirect_loop_detected
  | Nested_indirect
  | Failed_to_map_indirect_buffer
  | Indirect_out_after_in
  | Guest_moved_index
  | Head_out_of_range
  | Desc_index_out_of_range
  | Loop_detected
  | Failed_to_map_desc
  | Out_after_in

text \<open>\<^verbatim>\<open>struct iovec\<close>; \<^verbatim>\<open>size_t\<close> has 64 bits on the x86-64 host of this file.\<close>

record iovec =
  iov_base :: "64 word"
  iov_len :: "64 word"

text \<open>
  The caller's memory that \<^verbatim>\<open>vring_pop\<close> writes through its pointer arguments: the
  array \<^verbatim>\<open>iov[]\<close> up to \<^verbatim>\<open>iov_end\<close> (its length is the capacity) and the two counters
  \<^verbatim>\<open>*out_num\<close> and \<^verbatim>\<open>*in_num\<close>. The local pointer \<^verbatim>\<open>iov\<close> of each function is an
  index \<open>pos\<close> into the array.
\<close>

record outbuf =
  iov :: "iovec list"
  out_num :: "32 word"
  in_num :: "32 word"

text \<open>What a call leaves behind: the value returned, the report made, and the memory.\<close>

record outcome =
  ret :: retval
  report :: "report option"
  bufs :: outbuf
  vring_after :: Vring

text \<open>\<^verbatim>\<open>error_report(...); vring->broken = true; return -EFAULT;\<close>\<close>

definition fatal :: "report \<Rightarrow> outbuf \<Rightarrow> Vring \<Rightarrow> outcome" where
  "fatal msg ob vring =
     \<lparr>ret = Fail EFAULT, report = Some msg, bufs = ob, vring_after = vring\<lparr>broken := True\<rparr>\<rparr>"

text \<open>
  One pass through the body of a \<^verbatim>\<open>do ... while\<close> loop ends in one of three ways:
  the loop test holds and the body runs again on new values of the locals, the loop
  test fails and the loop is left, or the function returns from inside the body.
\<close>

datatype 's iteration = Again 's | Leave outbuf | Return outcome

subsection \<open>Resolving one descriptor\<close>

text \<open>
  Lines 175 to 205 of \<^verbatim>\<open>get_indirect\<close> and lines 299 to 332 of \<^verbatim>\<open>vring_pop\<close> are
  the same code but for the two reports: stop with \<^verbatim>\<open>-ENOBUFS\<close> when
  \<^verbatim>\<open>iov >= iov_end\<close>; translate the buffer with the write intent of the descriptor's
  \<^verbatim>\<open>VRING_DESC_F_WRITE\<close> flag and store the pointer in \<^verbatim>\<open>iov->iov_base\<close> (before it is
  tested); store the length; count the descriptor in \<^verbatim>\<open>*in_num\<close> when it is
  write-flagged, and otherwise in \<^verbatim>\<open>*out_num\<close> unless \<^verbatim>\<open>*in_num\<close> is not zero, which
  is fatal. \<open>Inl\<close> is a return from the function, \<open>Inr\<close> the caller's memory after
  \<^verbatim>\<open>iov++\<close> and the count.
\<close>

definition resolve_desc ::
  "Vring \<Rightarrow> vring_desc \<Rightarrow> report \<Rightarrow> report \<Rightarrow> nat \<Rightarrow> outbuf \<Rightarrow> outcome + outbuf" where
  "resolve_desc vring d map_report order_report pos ob =
     (if length (iov ob) \<le> pos
      then Inl \<lparr>ret = Fail ENOBUFS, report = None, bufs = ob, vring_after = vring\<rparr>
      else
        let base = hostmem_lookup (hostmem vring) (desc_addr d) (ucast (desc_len d))
                     (desc_flags d AND VRING_DESC_F_WRITE \<noteq> 0);
            ob1 = ob\<lparr>iov := (iov ob)[pos := (iov ob ! pos)\<lparr>iov_base := base\<rparr>]\<rparr>
        in if base = 0 then Inl (fatal map_report ob1 vring)
        else
          let ob2 = ob1\<lparr>iov := (iov ob1)
                       [pos := \<lparr>iov_base = base, iov_len = ucast (desc_len d)\<rparr>]\<rparr>
          in if desc_flags d AND VRING_DESC_F_WRITE \<noteq> 0
             then Inr (ob2\<lparr>in_num := in_num ob2 + 1\<rparr>)
             else if in_num ob2 \<noteq> 0 then Inl (fatal order_report ob2 vring)
             else Inr (ob2\<lparr>out_num := out_num ob2 + 1\<rparr>))"

subsection \<open>get_indirect\<close>

text \<open>
  The body of the \<^verbatim>\<open>do ... while (desc.flags & VRING_DESC_F_NEXT)\<close> loop of
  \<^verbatim>\<open>get_indirect\<close>, on the locals \<^verbatim>\<open>found\<close> and \<^verbatim>\<open>iov\<close> (the index \<open>pos\<close>) and
  the caller's memory. The table entry is looked up at
  \<^verbatim>\<open>indirect->addr + found * sizeof(desc)\<close>, a 64-bit sum, before \<^verbatim>\<open>found\<close> is
  incremented and compared with \<^verbatim>\<open>count\<close>. The local \<^verbatim>\<open>i = desc.next\<close> only feeds
  the reports and is left out.
\<close>

definition indirect_body ::
  "Vring \<Rightarrow> vring_desc \<Rightarrow> 32 word \<Rightarrow> 32 word \<times> nat \<times> outbuf
     \<Rightarrow> (32 word \<times> nat \<times> outbuf) iteration" where
  "indirect_body vring indirect count s =
     (case s of (found, pos, ob) \<Rightarrow>
      let desc_ptr = hostmem_lookup (hostmem vring)
                       (desc_addr indirect + ucast found * of_nat sizeof_desc)
                       (of_nat sizeof_desc) False
      in if desc_ptr = 0 then Return (fatal Failed_to_map_indirect_descriptor ob vring)
      else
        let d = load_desc (hostmem vring) desc_ptr
        in if found + 1 > count then Return (fatal Indirect_loop_detected ob vring)
        else if desc_flags d AND VRING_DESC_F_INDIRECT \<noteq> 0
        then Return (fatal Nested_indirect ob vring)
        else
          (case resolve_desc vring d Failed_to_map_indirect_buffer Indirect_out_after_in pos ob of
             Inl r \<Rightarrow> Return r
           | Inr ob' \<Rightarrow>
               if desc_flags d AND VRING_DESC_F_NEXT \<noteq> 0
               then Again (found + 1, pos + 1, ob')
               else Leave ob'))"

text \<open>The loop, and the \<^verbatim>\<open>return 0\<close> behind it. Every pass that runs again has used a slot
  of \<^verbatim>\<open>iov[]\<close>, so the loop ends.\<close>

function indirect_loop ::
  "Vring \<Rightarrow> vring_desc \<Rightarrow> 32 word \<Rightarrow> 32 word \<times> nat \<times> outbuf \<Rightarrow> outcome" where
  "indirect_loop vring indirect count s =
     (case indirect_body vring indirect count s of
        Again s' \<Rightarrow> indirect_loop vring indirect count s'
      | Leave ob' \<Rightarrow> \<lparr>ret = Ret 0, report = None, bufs = ob', vring_after = vring\<rparr>
      | Return r \<Rightarrow> r)"
  by pat_completeness auto
termination
  by (relation "measure (\<lambda>(vring, indirect, count, found, pos, ob). length (iov ob) - pos)")
    (auto simp add: indirect_body_def resolve_desc_def Let_def split: if_splits sum.splits)

text \<open>
  \<^verbatim>\<open>static int get_indirect(vring, iov, iov_end, out_num, in_num, indirect)\<close>. The
  pointer \<^verbatim>\<open>iov\<close> is passed by value: \<open>pos\<close> is where the callee starts to write, and
  the caller's own position does not move.
\<close>

definition get_indirect :: "Vring \<Rightarrow> nat \<Rightarrow> outbuf \<Rightarrow> vring_desc \<Rightarrow> outcome" where
  "get_indirect vring pos ob indirect =
     (if unat (desc_len indirect) mod sizeof_desc \<noteq> 0
      then fatal Invalid_indirect_length ob vring
      else
        let count = desc_len indirect div of_nat sizeof_desc
        in if unat count > USHRT_MAX + 1 then fatal Indirect_too_big ob vring
           else indirect_loop vring indirect count (0, pos, ob))"

subsection \<open>vring_pop\<close>

text \<open>
  The body of the \<^verbatim>\<open>do ... while (desc.flags & VRING_DESC_F_NEXT)\<close> loop of
  \<^verbatim>\<open>vring_pop\<close>, on the locals \<^verbatim>\<open>i\<close>, \<^verbatim>\<open>found\<close> and \<^verbatim>\<open>iov\<close> (the index \<open>pos\<close>) and
  the caller's memory. After \<^verbatim>\<open>get_indirect\<close> the \<^verbatim>\<open>continue\<close> jumps to the loop
  test, so \<^verbatim>\<open>i = desc.next\<close> is skipped and the pointer \<^verbatim>\<open>iov\<close> is where it was. The
  only write to \<^verbatim>\<open>*vring\<close> in the loop is \<^verbatim>\<open>broken = true\<close>, right before a return.
\<close>

definition pop_body ::
  "Vring \<Rightarrow> 32 word \<times> 32 word \<times> nat \<times> outbuf
     \<Rightarrow> (32 word \<times> 32 word \<times> nat \<times> outbuf) iteration" where
  "pop_body vring s =
     (case s of (i, found, pos, ob) \<Rightarrow>
      if num (vr vring) \<le> i then Return (fatal Desc_index_out_of_range ob vring)
      else if found + 1 > num (vr vring) then Return (fatal Loop_detected ob vring)
      else
        let d = desc (vr vring) (unat i)
        in if desc_flags d AND VRING_DESC_F_INDIRECT \<noteq> 0
        then
          (let r = get_indirect vring pos ob d
           in case ret r of
                Fail e \<Rightarrow> Return r
              | Ret z \<Rightarrow>
                  if desc_flags d AND VRING_DESC_F_NEXT \<noteq> 0
                  then Again (i, found + 1, pos, bufs r)
                  else Leave (bufs r))
        else
          (case resolve_desc vring d Failed_to_map_desc Out_after_in pos ob of
             Inl r \<Rightarrow> Return r
           | Inr ob' \<Rightarrow>
               if desc_flags d AND VRING_DESC_F_NEXT \<noteq> 0
               then Again (ucast (desc_next d), found + 1, pos + 1, ob')
               else Leave ob'))"

text \<open>
  The loop. The counter \<^verbatim>\<open>found\<close> is an \<^verbatim>\<open>unsigned int\<close> and wraps, and a pass over
  an indirect descriptor uses no slot of the caller's position, so nothing bounds the
  number of passes for every \<^verbatim>\<open>num\<close>: \<open>None\<close> is a loop that does not return. A loop
  that is left yields \<open>Ret 0\<close> here; \<^verbatim>\<open>vring_pop\<close> goes on behind it.
\<close>

partial_function (option) pop_loop ::
  "Vring \<Rightarrow> 32 word \<times> 32 word \<times> nat \<times> outbuf \<Rightarrow> outcome option" where
  "pop_loop vring s =
     (case pop_body vring s of
        Again s' \<Rightarrow> pop_loop vring s'
      | Leave ob' \<Rightarrow> Some \<lparr>ret = Ret 0, report = None, bufs = ob', vring_after = vring\<rparr>
      | Return r \<Rightarrow> Some r)"

text \<open>
  \<^verbatim>\<open>head = vring->vr.avail->ring[last_avail_idx % num]\<close>, a \<^verbatim>\<open>uint16_t\<close> read into an
  \<^verbatim>\<open>unsigned int\<close>.
\<close>

definition next_head :: "Vring \<Rightarrow> 32 word" where
  "next_head vring =
     ucast (avail_ring (avail (vr vring))
              (unat (last_avail_idx vring) mod unat (num (vr vring))))"

text \<open>
  \<^verbatim>\<open>if (guest_features & (1 << VIRTIO_RING_F_EVENT_IDX))
    vring_avail_event(&vring->vr) = vring->vr.avail->idx;\<close>
\<close>

definition publish_avail_event :: "VirtIODevice \<Rightarrow> Vring \<Rightarrow> Vring" where
  "publish_avail_event vdev vring =
     (if guest_features vdev AND push_bit VIRTIO_RING_F_EVENT_IDX 1 \<noteq> 0
      then vring\<lparr>vr := (vr vring)\<lparr>used := (used (vr vring))
               \<lparr>avail_event := avail_idx (avail (vr vring))\<rparr>\<rparr>\<rparr>
      else vring)"

text \<open>
  \<^verbatim>\<open>int vring_pop(vdev, vring, iov, iov_end, out_num, in_num)\<close>. The comparison
  \<^verbatim>\<open>(uint16_t)(avail_idx - last_avail_idx) > num\<close> is made on \<^verbatim>\<open>unsigned int\<close>. Past
  the two tests on the indices \<^verbatim>\<open>num\<close> is not 0, so \<^verbatim>\<open>last_avail_idx % num\<close> divides
  by no zero. The walk starts with \<^verbatim>\<open>*out_num = *in_num = 0\<close>, \<^verbatim>\<open>i = head\<close>,
  \<^verbatim>\<open>found = 0\<close> and \<^verbatim>\<open>iov\<close> at the start of the array. On success
  \<^verbatim>\<open>vring->last_avail_idx++\<close> and the value returned is \<^verbatim>\<open>head\<close>.
\<close>

definition vring_pop :: "VirtIODevice \<Rightarrow> Vring \<Rightarrow> outbuf \<Rightarrow> outcome option" where
  "vring_pop vdev vring ob =
     (if broken vring
      then Some \<lparr>ret = Fail EFAULT, report = None, bufs = ob, vring_after = vring\<rparr>
      else
        let last = last_avail_idx vring;
            aidx = avail_idx (avail (vr vring))
        in if ucast (aidx - last) > num (vr vring) then Some (fatal Guest_moved_index ob vring)
        else if aidx = last
        then Some \<lparr>ret = Fail EAGAIN, report = None, bufs = ob, vring_after = vring\<rparr>
        else
          let head = next_head vring
          in if num (vr vring) \<le> head then Some (fatal Head_out_of_range ob vring)
          else
            (case pop_loop (publish_avail_event vdev vring)
                    (head, 0, 0, ob\<lparr>out_num := 0, in_num := 0\<rparr>) of
               None \<Rightarrow> None
             | Some r \<Rightarrow>
                 (case ret r of
                    Fail e \<Rightarrow> Some r
                  | Ret z \<Rightarrow>
                      Some (r\<lparr>ret := Ret head,
                              vring_after := (vring_after r)
                                \<lparr>last_avail_idx := last_avail_idx (vring_after r) + 1\<rparr>\<rparr>))))"

text \<open>
  The tests of \<^verbatim>\<open>vring_pop\<close> before the walk all pass: the queue is not broken, the
  guest has published between 1 and \<open>num\<close> new entries, and the head is inside the
  descriptor table.
\<close>

definition walk_starts :: "Vring \<Rightarrow> bool" where
  "walk_starts vring =
     (\<not> broken vring \<and>
      unat (avail_idx (avail (vr vring)) - last_avail_idx vring) \<le> unat (num (vr vring)) \<and>
      avail_idx (avail (vr vring)) \<noteq> last_avail_idx vring \<and>
      next_head vring < num (vr vring))"

subsection \<open>Shapes of outcomes\<close>

text \<open>
  \<open>framed M vring ob r\<close>: the outcome \<open>r\<close> of a walk started on \<open>vring\<close> and \<open>ob\<close> has
  the capacity of \<open>ob\<close>, and it is a success or \<^verbatim>\<open>-ENOBUFS\<close> with no report and
  \<open>vring\<close> as it was, or \<^verbatim>\<open>-EFAULT\<close> with a report of \<open>M\<close> and \<open>broken\<close> set.
\<close>

definition framed :: "report set \<Rightarrow> Vring \<Rightarrow> outbuf \<Rightarrow> outcome \<Rightarrow> bool" where
  "framed M vring ob r =
     (length (iov (bufs r)) = length (iov ob) \<and>
      (ret r = Ret 0 \<and> report r = None \<and> vring_after r = vring \<or>
       ret r = Fail ENOBUFS \<and> report r = None \<and> vring_after r = vring \<or>
       ret r = Fail EFAULT \<and> (\<exists>m \<in> M. report r = Some m) \<and>
          vring_after r = vring\<lparr>broken := True\<rparr>))"

definition indirect_reports :: "report set" where
  "indirect_reports = {Failed_to_map_indirect_descriptor, Indirect_loop_detected,
      Nested_indirect, Failed_to_map_indirect_buffer, Indirect_out_after_in}"

definition get_indirect_reports :: "report set" where
  "get_indirect_reports = {Invalid_indirect_length, Indirect_too_big} \<union> indirect_reports"

definition pop_reports :: "report set" where
  "pop_reports = {Desc_index_out_of_range, Loop_detected, Failed_to_map_desc, Out_after_in}
      \<union> get_indirect_reports"

subsection \<open>Counting the passes of a loop\<close>

text \<open>
  \<open>passes body n s\<close> runs the body of a loop \<open>n\<close> times from the locals \<open>s\<close>, or
  fewer times when the loop is left or the function returns before: \<open>Again s'\<close> says
  that \<open>n\<close> passes were made and the loop test held after each of them.
\<close>

fun passes :: "('s \<Rightarrow> 's iteration) \<Rightarrow> nat \<Rightarrow> 's \<Rightarrow> 's iteration" where
  "passes body 0 s = Again s"
| "passes body (Suc n) s =
     (case body s of
        Again s' \<Rightarrow> passes body n s'
      | Leave ob \<Rightarrow> Leave ob
      | Return r \<Rightarrow> Return r)"

text \<open>
  A bound on the passes that the loop of \<^verbatim>\<open>vring_pop\<close> can still make when its
  counter is \<open>found\<close>, for a queue size \<open>n\<close> below the largest \<^verbatim>\<open>unsigned int\<close>: a
  counter at the largest value wraps to 0 first.
\<close>

definition passes_left :: "32 word \<Rightarrow> 32 word \<Rightarrow> nat" where
  "passes_left n found = (if found = - 1 then Suc (unat n) else unat n - unat found)"

subsection \<open>Descriptor chains, as the spec describes them\<close>

text \<open>
  The spec's chain: the descriptors reached from a head index by following
  \<open>next\<close> while the \<^verbatim>\<open>NEXT\<close> flag is set. \<open>chain_ends v n i\<close> says that the chain
  from \<open>i\<close> stops within \<open>n\<close> descriptors, at indices inside the table; a cycle or a
  chain longer than \<open>n\<close> does not.
\<close>

fun chain_ends :: "vring \<Rightarrow> nat \<Rightarrow> 32 word \<Rightarrow> bool" where
  "chain_ends v 0 i = False"
| "chain_ends v (Suc n) i =
     (i < num v \<and>
      (if desc_flags (desc v (unat i)) AND VRING_DESC_F_NEXT \<noteq> 0
       then chain_ends v n (ucast (desc_next (desc v (unat i))))
       else True))"

text \<open>The first \<open>n\<close> descriptors of the chain from \<open>i\<close>.\<close>

fun direct_chain :: "vring \<Rightarrow> nat \<Rightarrow> 32 word \<Rightarrow> vring_desc list" where
  "direct_chain v 0 i = []"
| "direct_chain v (Suc n) i =
     desc v (unat i) #
     (if desc_flags (desc v (unat i)) AND VRING_DESC_F_NEXT \<noteq> 0
      then direct_chain v n (ucast (desc_next (desc v (unat i))))
      else [])"

text \<open>
  Entry \<open>k\<close> of an indirect table, taken at byte offset \<open>k * sizeof(descriptor)\<close> from
  the table's base address: the host pointer the translator gives for it, and the
  descriptor stored there with its \<open>next\<close> field blanked.
\<close>

definition table_entry :: "Vring \<Rightarrow> vring_desc \<Rightarrow> nat \<Rightarrow> 64 word \<times> vring_desc" where
  "table_entry vring indirect k =
     (let p = hostmem_lookup (hostmem vring)
                (desc_addr indirect + of_nat k * of_nat sizeof_desc) (of_nat sizeof_desc) False
      in (p, (load_desc (hostmem vring) p)\<lparr>desc_next := 0\<rparr>))"

text \<open>
  The chain inside an indirect table: entries \<open>k\<close>, \<open>k + 1\<close>, ... while the \<^verbatim>\<open>NEXT\<close>
  flag is set, \<open>n\<close> of them at most.
\<close>

fun table_chain :: "Vring \<Rightarrow> vring_desc \<Rightarrow> nat \<Rightarrow> nat \<Rightarrow> vring_desc list" where
  "table_chain vring indirect 0 k = []"
| "table_chain vring indirect (Suc n) k =
     snd (table_entry vring indirect k) #
     (if desc_flags (snd (table_entry vring indirect k)) AND VRING_DESC_F_NEXT \<noteq> 0
      then table_chain vring indirect n (Suc k)
      else [])"

text \<open>
  The buffers one descriptor of a chain stands for: itself, or, for an indirect
  descriptor, the chain of its table, whose entry count is its declared byte length
  over the descriptor size.
\<close>

definition expand :: "Vring \<Rightarrow> vring_desc \<Rightarrow> vring_desc list" where
  "expand vring d =
     (if desc_flags d AND VRING_DESC_F_INDIRECT \<noteq> 0
      then table_chain vring d (unat (desc_len d) div sizeof_desc) 0
      else [d])"

text \<open>
  The buffers of the request at \<open>head\<close>, in order: the chain of at most \<open>num\<close>
  descriptors from \<open>head\<close>, each expanded.
\<close>

definition chain_descs :: "Vring \<Rightarrow> 32 word \<Rightarrow> vring_desc list" where
  "chain_descs vring head =
     concat (map (expand vring) (direct_chain (vr vring) (unat (num (vr vring))) head))"

text \<open>A descriptor that is not write-flagged stands after a write-flagged one.\<close>

fun out_after_in :: "vring_desc list \<Rightarrow> bool" where
  "out_after_in [] = False"
| "out_after_in (d # ds) =
     (desc_flags d AND VRING_DESC_F_WRITE \<noteq> 0 \<and>
        list_ex (\<lambda>d'. desc_flags d' AND VRING_DESC_F_WRITE = 0) ds
      \<or> out_after_in ds)"

text \<open>
  A walk over a table given as the list of its entries, first entry first: it takes the
  head of the list, works on it as \<^verbatim>\<open>get_indirect\<close> does on a descriptor, and goes on
  with the tail exactly when the entry has the \<^verbatim>\<open>NEXT\<close> flag. \<open>k\<close> counts the entries
  taken before.
\<close>

fun seq_walk ::
  "Vring \<Rightarrow> nat \<Rightarrow> (64 word \<times> vring_desc) list \<Rightarrow> nat \<Rightarrow> nat \<Rightarrow> outbuf \<Rightarrow> outcome" where
  "seq_walk vring count [] k pos ob = fatal Indirect_loop_detected ob vring"
| "seq_walk vring count (e # es) k pos ob =
     (if fst e = 0 then fatal Failed_to_map_indirect_descriptor ob vring
      else if count < k + 1 then fatal Indirect_loop_detected ob vring
      else if desc_flags (snd e) AND VRING_DESC_F_INDIRECT \<noteq> 0
      then fatal Nested_indirect ob vring
      else
        (case resolve_desc vring (snd e) Failed_to_map_indirect_buffer Indirect_out_after_in
                pos ob of
           Inl r \<Rightarrow> r
         | Inr ob' \<Rightarrow>
             if desc_flags (snd e) AND VRING_DESC_F_NEXT \<noteq> 0
             then seq_walk vring count es (k + 1) (pos + 1) ob'
             else \<lparr>ret = Ret 0, report = None, bufs = ob', vring_after = vring\<rparr>))"

text \<open>
  The same queue over a host memory in which the \<open>next\<close> field of every stored
  descriptor is replaced, by \<open>f p\<close> in the descriptor at host pointer \<open>p\<close>.
\<close>

definition with_next :: "(64 word \<Rightarrow> 16 word) \<Rightarrow> Vring \<Rightarrow> Vring" where
  "with_next f vring =
     vring\<lparr>hostmem := (hostmem vring)
       \<lparr>load_desc := (\<lambda>p. (load_desc (hostmem vring) p)\<lparr>desc_next := f p\<rparr>)\<rparr>\<rparr>"

subsection \<open>The caller's list runs out\<close>

text \<open>
  What it is for the list to fill up before the chain is fully walked, on the walk
  of \<^verbatim>\<open>vring_pop\<close>: after \<open>n\<close> passes from the head the loop goes on at a descriptor
  that passes the two tests made before it is read (its index is inside the table, the
  loop bound is not exceeded), and
  \<^item> that descriptor is direct and the list is full, \<open>length iov \<le> pos\<close> (the test
    \<^verbatim>\<open>iov >= iov_end\<close>); or
  \<^item> it is an indirect descriptor of a valid length and, after \<open>k\<close> passes inside its
    table, the entry at hand passes the three tests made before the capacity test (the
    entry is mapped, it is within the table's count, it is not itself indirect) and the
    list is full.
\<close>

definition list_full_at :: "VirtIODevice \<Rightarrow> Vring \<Rightarrow> outbuf \<Rightarrow> nat \<Rightarrow> nat \<Rightarrow> bool" where
  "list_full_at vdev vring ob n k =
     (let v = publish_avail_event vdev vring
      in case passes (pop_body v) n (next_head vring, 0, 0, ob\<lparr>out_num := 0, in_num := 0\<rparr>) of
           Again (i, found, pos, ob') \<Rightarrow>
             i < num (vr v) \<and> found + 1 \<le> num (vr v) \<and>
             (let d = desc (vr v) (unat i);
                  count = desc_len d div of_nat sizeof_desc
              in if desc_flags d AND VRING_DESC_F_INDIRECT \<noteq> 0
                 then unat (desc_len d) mod sizeof_desc = 0 \<and> unat count \<le> USHRT_MAX + 1 \<and>
                   (case passes (indirect_body v d count) k (0, pos, ob') of
                      Again (f, p, ob'') \<Rightarrow>
                        fst (table_entry v d (unat f)) \<noteq> 0 \<and> f + 1 \<le> count \<and>
                        desc_flags (snd (table_entry v d (unat f))) AND VRING_DESC_F_INDIRECT = 0 \<and>
                        length (iov ob'') \<le> p
                    | Leave ob'' \<Rightarrow> False
                    | Return r \<Rightarrow> False)
                 else length (iov ob') \<le> pos)
         | Leave ob' \<Rightarrow> False
         | Return r \<Rightarrow> False)"

subsection \<open>Example queues\<close>

text \<open>
  A translator that maps every guest address to the host pointer of the same value
  (so only address 0 fails to map), over a host memory of zeroed descriptors.
\<close>

definition hostmem0 :: HostMem where
  "hostmem0 = \<lparr>hostmem_lookup = (\<lambda>a l w. a),
               load_desc = (\<lambda>p. \<lparr>desc_addr = 0, desc_len = 0, desc_flags = 0, desc_next = 0\<rparr>)\<rparr>"

text \<open>A queue of 4 entries right after setup, over zeroed rings.\<close>

definition vring0 :: Vring where
  "vring0 =
     \<lparr>vr = \<lparr>num = 4,
             desc = (\<lambda>i. \<lparr>desc_addr = 0, desc_len = 0, desc_flags = 0, desc_next = 0\<rparr>),
             avail = \<lparr>avail_flags = 0, avail_idx = 0, avail_ring = (\<lambda>i. 0), used_event = 0\<rparr>,
             used = \<lparr>used_flags = 0, used_idx = 0,
                     used_ring = (\<lambda>i. \<lparr>elem_id = 0, elem_len = 0\<rparr>), avail_event = 0\<rparr>\<rparr>,
      hostmem = hostmem0,
      last_avail_idx = 0, last_used_idx = 0,
      signalled_used = 0, signalled_used_valid = False, broken = False\<rparr>"

text \<open>The same queue with the guest asking for no interrupts (\<^verbatim>\<open>avail->flags = 1\<close>).\<close>

definition vring_no_interrupt :: Vring where
  "vring_no_interrupt =
     vring0\<lparr>vr := (vr vring0)\<lparr>avail := (avail (vr vring0))\<lparr>avail_flags := 1\<rparr>\<rparr>\<rparr>"

text \<open>One request pending, no interrupts wanted, five completions not yet signalled.\<close>

definition vring_pending :: Vring where
  "vring_pending =
     vring0\<lparr>vr := (vr vring0)\<lparr>avail := (avail (vr vring0))\<lparr>avail_flags := 1, avail_idx := 1\<rparr>\<rparr>,
            last_used_idx := 5\<rparr>"

text \<open>Caller memory with room for \<open>n\<close> spans.\<close>

definition outbuf_of :: "nat \<Rightarrow> outbuf" where
  "outbuf_of n = \<lparr>iov = replicate n \<lparr>iov_base = 0, iov_len = 0\<rparr>, out_num = 0, in_num = 0\<rparr>"

text \<open>The guest has published one request, whose head is descriptor \<open>h\<close>.\<close>

definition one_request :: "16 word \<Rightarrow> Vring \<Rightarrow> Vring" where
  "one_request h vring =
     vring\<lparr>vr := (vr vring)\<lparr>avail := (avail (vr vring))
              \<lparr>avail_idx := 1, avail_ring := (\<lambda>i. h)\<rparr>\<rparr>\<rparr>"

text \<open>The descriptor table of a queue, replaced.\<close>

definition with_desc :: "(nat \<Rightarrow> vring_desc) \<Rightarrow> Vring \<Rightarrow> Vring" where
  "with_desc t vring = vring\<lparr>vr := (vr vring)\<lparr>desc := t\<rparr>\<rparr>"

text \<open>
  The spec's scenario: \<open>num = 4\<close>, \<^verbatim>\<open>avail.idx = 1\<close>, \<^verbatim>\<open>ring[0] = 2\<close>, and descriptor 2
  a single write-flagged buffer of 512 bytes at address \<^verbatim>\<open>0x8000\<close>.
\<close>

definition vring_scenario :: Vring where
  "vring_scenario =
     with_desc (\<lambda>i. \<lparr>desc_addr = 0x8000, desc_len = 512, desc_flags = 2, desc_next = 0\<rparr>)
       (one_request 2 vring0)"

text \<open>A chain of two device-readable descriptors, 0 and then 1.\<close>

definition vring_chain2 :: Vring where
  "vring_chain2 =
     with_desc (\<lambda>i. if i = 0
                     then \<lparr>desc_addr = 0x1000, desc_len = 16, desc_flags = 1, desc_next = 1\<rparr>
                     else \<lparr>desc_addr = 0x2000, desc_len = 16, desc_flags = 0, desc_next = 0\<rparr>)
       (one_request 0 vring0)"

text \<open>A cycle: descriptor 0 has the \<^verbatim>\<open>NEXT\<close> flag and names itself as the next one.\<close>

definition vring_cycle :: Vring where
  "vring_cycle =
     with_desc (\<lambda>i. \<lparr>desc_addr = 0x1000, desc_len = 16, desc_flags = 1, desc_next = 0\<rparr>)
       (one_request 0 vring0)"

text \<open>Descriptor 0 is write-flagged and is followed by descriptor 1, which is not.\<close>

definition vring_in_out :: Vring where
  "vring_in_out =
     with_desc (\<lambda>i. if i = 0
                     then \<lparr>desc_addr = 0x1000, desc_len = 16, desc_flags = 3, desc_next = 1\<rparr>
                     else \<lparr>desc_addr = 0x2000, desc_len = 16, desc_flags = 0, desc_next = 0\<rparr>)
       (one_request 0 vring0)"

text \<open>The guest claims five new entries on a queue of four.\<close>

definition vring_moved :: Vring where
  "vring_moved =
     vring0\<lparr>vr := (vr vring0)\<lparr>avail := (avail (vr vring0))\<lparr>avail_idx := 5\<rparr>\<rparr>\<rparr>"

text \<open>
  One request whose head, descriptor 0, is an indirect descriptor without the \<^verbatim>\<open>NEXT\<close>
  flag: a table of two entries at \<^verbatim>\<open>0x4000\<close>. The host memory holds a
  device-readable entry with the \<^verbatim>\<open>NEXT\<close> flag at \<^verbatim>\<open>0x4000\<close> and a write-flagged last
  entry everywhere else; the \<open>next\<close> field of the first entry names entry 7.
\<close>

definition hostmem_table :: HostMem where
  "hostmem_table =
     \<lparr>hostmem_lookup = (\<lambda>a l w. a),
      load_desc = (\<lambda>p. if p = 0x4000
                        then \<lparr>desc_addr = 0x5000, desc_len = 64, desc_flags = 1, desc_next = 7\<rparr>
                        else \<lparr>desc_addr = 0x6000, desc_len = 64, desc_flags = 2, desc_next = 0\<rparr>)\<rparr>"

definition vring_indirect :: Vring where
  "vring_indirect =
     (with_desc (\<lambda>i. \<lparr>desc_addr = 0x4000, desc_len = 32, desc_flags = 4, desc_next = 0\<rparr>)
        (one_request 0 vring0))\<lparr>hostmem := hostmem_table\<rparr>"

text \<open>
  A queue whose \<open>num\<close> is the largest 32-bit value: every descriptor is indirect with
  the \<^verbatim>\<open>NEXT\<close> flag, its table of one write-flagged entry at \<^verbatim>\<open>0x6000\<close>, and names
  descriptor 0 as its successor.
\<close>

definition vring_wide :: Vring where
  "vring_wide =
     (with_desc (\<lambda>i. \<lparr>desc_addr = 0x6000, desc_len = 16, desc_flags = 5, desc_next = 0\<rparr>)
        (one_request 0 vring0))
       \<lparr>hostmem := hostmem_table,
        vr := (vr (with_desc (\<lambda>i. \<lparr>desc_addr = 0x6000, desc_len = 16, desc_flags = 5,
                                  desc_next = 0\<rparr>) (one_request 0 vring0)))\<lparr>num := - 1\<rparr>\<rparr>"

text \<open>
  An indirect head without the \<^verbatim>\<open>NEXT\<close> flag whose table of one entry holds the entry
  at \<^verbatim>\<open>0x4000\<close>, which has the \<^verbatim>\<open>NEXT\<close> flag: the table chain goes on past the table.
\<close>

definition vring_table_loop :: Vring where
  "vring_table_loop =
     (with_desc (\<lambda>i. \<lparr>desc_addr = 0x4000, desc_len = 16, desc_flags = 4, desc_next = 0\<rparr>)
        (one_request 0 vring0))\<lparr>hostmem := hostmem_table\<rparr>"

text \<open>Descriptor 0 has the \<^verbatim>\<open>NEXT\<close> flag and names descriptor 9, outside the table of four.\<close>

definition vring_far :: Vring where
  "vring_far =
     with_desc (\<lambda>i. \<lparr>desc_addr = 0x1000, desc_len = 16, desc_flags = 1, desc_next = 9\<rparr>)
       (one_request 0 vring0)"

text \<open>
  A table of two entries at \<^verbatim>\<open>0x4000\<close> whose first entry is write-flagged with the
  \<^verbatim>\<open>NEXT\<close> flag and whose second entry is device-readable.
\<close>

definition hostmem_in_out :: HostMem where
  "hostmem_in_out =
     \<lparr>hostmem_lookup = (\<lambda>a l w. a),
      load_desc = (\<lambda>p. if p = 0x4000
                        then \<lparr>desc_addr = 0x5000, desc_len = 64, desc_flags = 3, desc_next = 0\<rparr>
                        else \<lparr>desc_addr = 0x6000, desc_len = 64, desc_flags = 0, desc_next = 0\<rparr>)\<rparr>"

definition vring_indirect_in_out :: Vring where
  "vring_indirect_in_out =
     (with_desc (\<lambda>i. \<lparr>desc_addr = 0x4000, desc_len = 32, desc_flags = 4, desc_next = 0\<rparr>)
        (one_request 0 vring0))\<lparr>hostmem := hostmem_in_out\<rparr>"

text \<open>A device-readable descriptor 0 followed by a write-flagged descriptor 1.\<close>

definition vring_out_in :: Vring where
  "vring_out_in =
     with_desc (\<lambda>i. if i = 0
                     then \<lparr>desc_addr = 0x1000, desc_len = 16, desc_flags = 1, desc_next = 1\<rparr>
                     else \<lparr>desc_addr = 0x2000, desc_len = 16, desc_flags = 2, desc_next = 0\<rparr>)
       (one_request 0 vring0)"

text \<open>The spec's scenario with four entries published on the queue of four.\<close>

definition vring_all_pending :: Vring where
  "vring_all_pending =
     vring_scenario\<lparr>vr := (vr vring_scenario)
       \<lparr>avail := (avail (vr vring_scenario))\<lparr>avail_idx := 4\<rparr>\<rparr>\<rparr>"

text \<open>
  An indirect head with the \<^verbatim>\<open>NEXT\<close> flag, over a table of two device-readable entries,
  followed by a direct descriptor 1 that ends the chain.
\<close>

definition hostmem_readable :: HostMem where
  "hostmem_readable =
     \<lparr>hostmem_lookup = (\<lambda>a l w. a),
      load_desc = (\<lambda>p. if p = 0x4000
                        then \<lparr>desc_addr = 0x5000, desc_len = 64, desc_flags = 1, desc_next = 0\<rparr>
                        else \<lparr>desc_addr = 0x6000, desc_len = 64, desc_flags = 0, desc_next = 0\<rparr>)\<rparr>"

definition vring_indirect_next :: Vring where
  "vring_indirect_next =
     (with_desc (\<lambda>i. if i = 0
                      then \<lparr>desc_addr = 0x4000, desc_len = 32, desc_flags = 5, desc_next = 1\<rparr>
                      else \<lparr>desc_addr = 0x2000, desc_len = 16, desc_flags = 0, desc_next = 0\<rparr>)
        (one_request 0 vring0))\<lparr>hostmem := hostmem_readable\<rparr>"

text \<open>The loop of \<^verbatim>\<open>vring_pop\<close> runs by its recursion equation.\<close>

declare pop_loop.simps [code]

section \<open>The shape of every outcome\<close>

text \<open>The loop equation of \<^verbatim>\<open>get_indirect\<close> is unfolded by hand only.\<close>

declare indirect_loop.simps [simp del]

lemma fatal_simps [simp]:
  "ret (fatal m ob v) = Fail EFAULT" "report (fatal m ob v) = Some m"
  "bufs (fatal m ob v) = ob" "vring_after (fatal m ob v) = v\<lparr>broken := True\<rparr>"
  by (simp_all add: fatal_def)

lemma resolve_desc_Inl:
  assumes "resolve_desc vring d m1 m2 pos ob = Inl r"
  shows "length (iov (bufs r)) = length (iov ob) \<and> in_num (bufs r) = in_num ob \<and>
         out_num (bufs r) = out_num ob \<and>
        (ret r = Fail ENOBUFS \<and> report r = None \<and> vring_after r = vring \<and> bufs r = ob \<and>
           length (iov ob) \<le> pos \<or>
         ret r = Fail EFAULT \<and> (report r = Some m1 \<or> report r = Some m2) \<and>
           vring_after r = vring\<lparr>broken := True\<rparr>)"
  using assms unfolding resolve_desc_def Let_def fatal_def
  by (auto split: if_splits)

lemma resolve_desc_Inr:
  assumes "resolve_desc vring d m1 m2 pos ob = Inr ob'"
  shows "pos < length (iov ob) \<and> length (iov ob') = length (iov ob) \<and>
         (if desc_flags d AND VRING_DESC_F_WRITE \<noteq> 0
          then in_num ob' = in_num ob + 1 \<and> out_num ob' = out_num ob
          else in_num ob = 0 \<and> in_num ob' = 0 \<and> out_num ob' = out_num ob + 1)"
  using assms unfolding resolve_desc_def Let_def fatal_def
  by (auto split: if_splits)


lemma framed_fatal: "m \<in> M \<Longrightarrow> framed M vring ob (fatal m ob vring)"
  by (simp add: framed_def)

lemma framed_mono: "framed M vring ob r \<Longrightarrow> M \<subseteq> M' \<Longrightarrow> length (iov ob) = length (iov ob') \<Longrightarrow> framed M' vring ob' r"
  by (auto simp add: framed_def)

lemma framed_resolve:
  "resolve_desc vring d m1 m2 pos ob = Inl r \<Longrightarrow> framed {m1, m2} vring ob r"
  by (drule resolve_desc_Inl) (auto simp add: framed_def)

lemma indirect_body_Return:
  assumes "indirect_body vring ind count (found, pos, ob) = Return r"
  shows "framed indirect_reports vring ob r"
  using assms unfolding indirect_body_def Let_def 
  apply (simp split: if_splits sum.splits)
     apply (clarsimp simp add: indirect_reports_def framed_def)
     apply (clarsimp simp add: indirect_reports_def framed_def)
     apply (clarsimp simp add: indirect_reports_def framed_def)
  apply (drule framed_resolve)
  apply (erule framed_mono)
   apply (simp_all add: indirect_reports_def)
  done

lemma indirect_body_Again:
  assumes "indirect_body vring ind count (found, pos, ob) = Again (found', pos', ob')"
  shows "found' = found + 1 \<and> pos' = pos + 1 \<and> pos < length (iov ob) \<and>
     length (iov ob') = length (iov ob) \<and> found + 1 \<le> count"
  using assms unfolding indirect_body_def Let_def 
  apply (simp split: if_splits sum.splits)
  apply (drule resolve_desc_Inr)
  apply simp
  done

lemma indirect_body_Leave:
  assumes "indirect_body vring ind count (found, pos, ob) = Leave ob'"
  shows "pos < length (iov ob) \<and> length (iov ob') = length (iov ob) \<and> found + 1 \<le> count"
  using assms unfolding indirect_body_def Let_def 
  apply (simp split: if_splits sum.splits)
  apply (drule resolve_desc_Inr)
  apply simp
  done

lemma indirect_loop_framed:
  "framed indirect_reports vring (snd (snd s)) (indirect_loop vring ind count s)"
proof (induction vring ind count s rule: indirect_loop.induct)
  case (1 vring indirect count s)
  obtain found pos ob where s: "s = (found, pos, ob)" by (cases s) auto
  show ?case
  proof (cases "indirect_body vring indirect count s")
    case (Again s')
    obtain found' pos' ob' where s': "s' = (found', pos', ob')" by (cases s') auto
    have eq: "indirect_loop vring indirect count s = indirect_loop vring indirect count s'"
      by (subst indirect_loop.simps) (simp add: Again)
    from indirect_body_Again [OF Again [unfolded s s']] 1 [OF Again]
    show ?thesis unfolding eq by (simp add: s s' framed_def)
  next
    case (Leave ob')
    have eq: "indirect_loop vring indirect count s =
        \<lparr>ret = Ret 0, report = None, bufs = ob', vring_after = vring\<rparr>"
      by (subst indirect_loop.simps) (simp add: Leave)
    from indirect_body_Leave [OF Leave [unfolded s]]
    show ?thesis unfolding eq by (simp add: s framed_def)
  next
    case (Return r)
    have eq: "indirect_loop vring indirect count s = r"
      by (subst indirect_loop.simps) (simp add: Return)
    from indirect_body_Return [OF Return [unfolded s]]
    show ?thesis unfolding eq by (simp add: s)
  qed
qed

lemma get_indirect_framed:
  "framed get_indirect_reports vring ob (get_indirect vring pos ob ind)"
proof -
  have "framed get_indirect_reports vring ob
          (indirect_loop vring ind (desc_len ind div of_nat sizeof_desc) (0, pos, ob))"
    by (rule framed_mono [OF indirect_loop_framed]) (auto simp add: get_indirect_reports_def)
  then show ?thesis
    by (simp add: get_indirect_def Let_def framed_fatal get_indirect_reports_def)
qed

lemma pop_body_Return:
  assumes "pop_body vring (i, found, pos, ob) = Return r"
  shows "framed pop_reports vring ob r \<and> ret r \<noteq> Ret 0"
proof -
  let ?d = "desc (vr vring) (unat i)"
  have gi: "framed pop_reports vring ob (get_indirect vring pos ob ?d)"
    by (rule framed_mono [OF get_indirect_framed]) (auto simp add: pop_reports_def)
  have rd: "\<And>r. resolve_desc vring ?d Failed_to_map_desc Out_after_in pos ob = Inl r \<Longrightarrow>
     framed pop_reports vring ob r \<and> ret r \<noteq> Ret 0"
  proof -
    fix r assume a: "resolve_desc vring ?d Failed_to_map_desc Out_after_in pos ob = Inl r"
    have "framed pop_reports vring ob r"
      by (rule framed_mono [OF framed_resolve [OF a]]) (auto simp add: pop_reports_def)
    moreover from resolve_desc_Inl [OF a] have "ret r \<noteq> Ret 0" by auto
    ultimately show "framed pop_reports vring ob r \<and> ret r \<noteq> Ret 0" by simp
  qed
  from assms gi rd show ?thesis
    unfolding pop_body_def Let_def
    apply (simp split: if_splits sum.splits retval.splits)
      apply (clarsimp simp add: pop_reports_def framed_fatal)
     apply (clarsimp simp add: pop_reports_def framed_fatal)
    done
qed

lemma pop_body_Again:
  assumes "pop_body vring (i, found, pos, ob) = Again (i', found', pos', ob')"
  shows "found' = found + 1 \<and> length (iov ob') = length (iov ob) \<and> i < num (vr vring) \<and>
         found + 1 \<le> num (vr vring) \<and>
         desc_flags (desc (vr vring) (unat i)) AND VRING_DESC_F_NEXT \<noteq> 0"
proof -
  let ?d = "desc (vr vring) (unat i)"
  have gi: "framed pop_reports vring ob (get_indirect vring pos ob ?d)"
    by (rule framed_mono [OF get_indirect_framed]) (auto simp add: pop_reports_def)
  from assms gi show ?thesis
    unfolding pop_body_def Let_def
    apply (simp split: if_splits sum.splits retval.splits)
     apply (clarsimp simp add: framed_def not_le not_less)
    apply (drule resolve_desc_Inr)
    apply (clarsimp simp add: not_le not_less)
    done
qed

lemma pop_body_Leave:
  assumes "pop_body vring (i, found, pos, ob) = Leave ob'"
  shows "length (iov ob') = length (iov ob) \<and> i < num (vr vring) \<and>
         found + 1 \<le> num (vr vring) \<and>
         desc_flags (desc (vr vring) (unat i)) AND VRING_DESC_F_NEXT = 0"
proof -
  let ?d = "desc (vr vring) (unat i)"
  have gi: "framed pop_reports vring ob (get_indirect vring pos ob ?d)"
    by (rule framed_mono [OF get_indirect_framed]) (auto simp add: pop_reports_def)
  from assms gi show ?thesis
    unfolding pop_body_def Let_def
    apply (simp split: if_splits sum.splits retval.splits)
     apply (clarsimp simp add: framed_def not_le not_less)
    apply (drule resolve_desc_Inr)
    apply (clarsimp simp add: not_le not_less)
    done
qed

lemma pop_loop_framed:
  "pop_loop vring s = Some r \<Longrightarrow> framed pop_reports vring (snd (snd (snd s))) r"
proof (induction rule: pop_loop.raw_induct [rotated, consumes 1])
  case (1 pop_loop vring s r)
  obtain i found pos ob where s: "s = (i, found, pos, ob)" by (cases s) auto
  show ?case
  proof (cases "pop_body vring s")
    case (Again s')
    obtain i' found' pos' ob' where s': "s' = (i', found', pos', ob')" by (cases s') auto
    from 1(2) Again have "pop_loop vring s' = Some r" by simp
    from 1(1) [OF this] pop_body_Again [OF Again [unfolded s s']]
    show ?thesis by (simp add: s s' framed_def)
  next
    case (Leave ob')
    from 1(2) Leave have "r = \<lparr>ret = Ret 0, report = None, bufs = ob', vring_after = vring\<rparr>"
      by simp
    with pop_body_Leave [OF Leave [unfolded s]] show ?thesis by (simp add: s framed_def)
  next
    case (Return r')
    from 1(2) Return have "r = r'" by simp
    with pop_body_Return [OF Return [unfolded s]] show ?thesis by (simp add: s)
  qed
qed

section \<open>The steps of vring_pop\<close>

lemma ucast_16_32_less: "(n < (ucast (w :: 16 word) :: 32 word)) = (unat n < unat w)"
proof -
  have "unat w < 2 ^ 16" using unsigned_less [of w] by simp
  then have "take_bit 32 (unat w) = unat w" by (simp add: take_bit_nat_eq_self)
  then show ?thesis by (simp add: word_less_nat_alt unsigned_ucast_eq)
qed

lemma publish_fields [simp]:
  "broken (publish_avail_event vdev vring) = broken vring"
  "last_avail_idx (publish_avail_event vdev vring) = last_avail_idx vring"
  "num (vr (publish_avail_event vdev vring)) = num (vr vring)"
  "desc (vr (publish_avail_event vdev vring)) = desc (vr vring)"
  "hostmem (publish_avail_event vdev vring) = hostmem vring"
  "avail (vr (publish_avail_event vdev vring)) = avail (vr vring)"
  by (simp_all add: publish_avail_event_def)

lemma Guest_moved_index_not_pop: "Guest_moved_index \<notin> pop_reports"
  by (simp add: pop_reports_def get_indirect_reports_def indirect_reports_def)

text \<open>What \<^verbatim>\<open>vring_pop\<close> does once the walk starts, and the ways it can return.\<close>

lemma vring_pop_walk:
  assumes "\<not> broken vring"
    and "unat (avail_idx (avail (vr vring)) - last_avail_idx vring) \<le> unat (num (vr vring))"
    and "avail_idx (avail (vr vring)) \<noteq> last_avail_idx vring"
    and "next_head vring < num (vr vring)"
  shows "vring_pop vdev vring ob =
     (case pop_loop (publish_avail_event vdev vring)
             (next_head vring, 0, 0, ob\<lparr>out_num := 0, in_num := 0\<rparr>) of
        None \<Rightarrow> None
      | Some r \<Rightarrow>
          (case ret r of
             Fail e \<Rightarrow> Some r
           | Ret z \<Rightarrow>
               Some (r\<lparr>ret := Ret (next_head vring),
                       vring_after := (vring_after r)
                         \<lparr>last_avail_idx := last_avail_idx (vring_after r) + 1\<rparr>\<rparr>)))"
proof -
  from assms(4) have "\<not> num (vr vring) \<le> next_head vring" by simp
  with assms show ?thesis by (simp add: vring_pop_def Let_def ucast_16_32_less not_less)
qed

lemma vring_pop_cases:
  assumes "vring_pop vdev vring ob = Some r"
  obtains (broken) "broken vring" "r = \<lparr>ret = Fail EFAULT, report = None, bufs = ob, vring_after = vring\<rparr>"
  | (moved) "\<not> broken vring"
     "unat (num (vr vring)) < unat (avail_idx (avail (vr vring)) - last_avail_idx vring)"
     "r = fatal Guest_moved_index ob vring"
  | (empty) "\<not> broken vring"  "avail_idx (avail (vr vring)) = last_avail_idx vring"
     "r = \<lparr>ret = Fail EAGAIN, report = None, bufs = ob, vring_after = vring\<rparr>"
  | (head) "\<not> broken vring" 
     "unat (avail_idx (avail (vr vring)) - last_avail_idx vring) \<le> unat (num (vr vring))"
     "avail_idx (avail (vr vring)) \<noteq> last_avail_idx vring"
     "num (vr vring) \<le> next_head vring" "r = fatal Head_out_of_range ob vring"
  | (failed) "\<not> broken vring" 
     "unat (avail_idx (avail (vr vring)) - last_avail_idx vring) \<le> unat (num (vr vring))"
     "avail_idx (avail (vr vring)) \<noteq> last_avail_idx vring"
     "next_head vring < num (vr vring)"
     "pop_loop (publish_avail_event vdev vring)
             (next_head vring, 0, 0, ob\<lparr>out_num := 0, in_num := 0\<rparr>) = Some r"
     "ret r \<noteq> Ret 0"
  | (popped) r' where "\<not> broken vring" 
     "unat (avail_idx (avail (vr vring)) - last_avail_idx vring) \<le> unat (num (vr vring))"
     "avail_idx (avail (vr vring)) \<noteq> last_avail_idx vring"
     "next_head vring < num (vr vring)"
     "pop_loop (publish_avail_event vdev vring)
             (next_head vring, 0, 0, ob\<lparr>out_num := 0, in_num := 0\<rparr>) = Some r'"
     "ret r' = Ret 0"
     "r = r'\<lparr>ret := Ret (next_head vring),
                       vring_after := (vring_after r')
                         \<lparr>last_avail_idx := last_avail_idx (vring_after r') + 1\<rparr>\<rparr>"
proof (cases "broken vring")
  case True
  with assms broken show ?thesis by (simp add: vring_pop_def)
next
  case nb: False
  show ?thesis
  proof (cases "unat (num (vr vring)) < unat (avail_idx (avail (vr vring)) - last_avail_idx vring)")
    case True
    with assms nb moved show ?thesis by (simp add: vring_pop_def Let_def ucast_16_32_less)
  next
    case le: False
    show ?thesis
    proof (cases "avail_idx (avail (vr vring)) = last_avail_idx vring")
      case True
      with assms nb le empty show ?thesis by (simp add: vring_pop_def Let_def ucast_16_32_less)
    next
      case ne: False
      show ?thesis
      proof (cases "num (vr vring) \<le> next_head vring")
        case True
        with assms nb le ne head show ?thesis
          by (simp add: vring_pop_def Let_def ucast_16_32_less)
      next
        case False
        then have h: "next_head vring < num (vr vring)" by simp
        from le have le': "unat (avail_idx (avail (vr vring)) - last_avail_idx vring) \<le> unat (num (vr vring))"
          by simp
        note w = vring_pop_walk [OF nb le' ne h, of vdev ob]
        from assms w obtain r' where r': "pop_loop (publish_avail_event vdev vring)
             (next_head vring, 0, 0, ob\<lparr>out_num := 0, in_num := 0\<rparr>) = Some r'"
          by (auto split: option.splits)
        from pop_loop_framed [OF r'] have "ret r' = Ret 0 \<or> ret r' \<noteq> Ret 0" by simp
        then show ?thesis
        proof
          assume z: "ret r' = Ret 0"
          with assms w r' have "r = r'\<lparr>ret := Ret (next_head vring),
                       vring_after := (vring_after r')
                         \<lparr>last_avail_idx := last_avail_idx (vring_after r') + 1\<rparr>\<rparr>"
            by simp
          with popped nb le' ne h r' z show ?thesis by blast
        next
          assume z: "ret r' \<noteq> Ret 0"
          from pop_loop_framed [OF r'] z have "\<exists>e. ret r' = Fail e"
            by (auto simp add: framed_def)
          with assms w r' have "r = r'" by auto
          with failed nb le' ne h r' z show ?thesis by blast
        qed
      qed
    qed
  qed
qed





lemma pop_loop_trace:
  assumes "pop_loop vring s = Some r"
  shows "\<exists>n s'. passes (pop_body vring) n s = Again s' \<and>
           (pop_body vring s' = Return r \<or>
            (\<exists>ob'. pop_body vring s' = Leave ob' \<and>
               r = \<lparr>ret = Ret 0, report = None, bufs = ob', vring_after = vring\<rparr>))"
  using assms
proof (induction rule: pop_loop.raw_induct [rotated, consumes 1])
  case (1 pop_loop vring s r)
  show ?case
  proof (cases "pop_body vring s")
    case (Again s1)
    with 1(2) have "pop_loop vring s1 = Some r" by simp
    from 1(1) [OF this] obtain n s' where
      "passes (pop_body vring) n s1 = Again s'"
      "pop_body vring s' = Return r \<or>
            (\<exists>ob'. pop_body vring s' = Leave ob' \<and>
               r = \<lparr>ret = Ret 0, report = None, bufs = ob', vring_after = vring\<rparr>)"
      by blast
    with Again have "passes (pop_body vring) (Suc n) s = Again s' \<and>
       (pop_body vring s' = Return r \<or>
            (\<exists>ob'. pop_body vring s' = Leave ob' \<and>
               r = \<lparr>ret = Ret 0, report = None, bufs = ob', vring_after = vring\<rparr>))"
      by simp
    then show ?thesis by blast
  next
    case (Leave ob')
    with 1(2) have "passes (pop_body vring) 0 s = Again s \<and>
       (pop_body vring s = Return r \<or>
            (\<exists>ob'. pop_body vring s = Leave ob' \<and>
               r = \<lparr>ret = Ret 0, report = None, bufs = ob', vring_after = vring\<rparr>))"
      by simp
    then show ?thesis by blast
  next
    case (Return r')
    with 1(2) have "passes (pop_body vring) 0 s = Again s \<and>
       (pop_body vring s = Return r \<or>
            (\<exists>ob'. pop_body vring s = Leave ob' \<and>
               r = \<lparr>ret = Ret 0, report = None, bufs = ob', vring_after = vring\<rparr>))"
      by simp
    then show ?thesis by blast
  qed
qed

lemma indirect_loop_trace:
  "\<exists>n s'. passes (indirect_body vring ind count) n s = Again s' \<and>
     (indirect_body vring ind count s' = Return (indirect_loop vring ind count s) \<or>
      (\<exists>ob'. indirect_body vring ind count s' = Leave ob' \<and>
         indirect_loop vring ind count s =
           \<lparr>ret = Ret 0, report = None, bufs = ob', vring_after = vring\<rparr>))"
proof (induction vring ind count s rule: indirect_loop.induct)
  case (1 vring indirect count s)
  let ?Q = "\<lambda>s n s'. passes (indirect_body vring indirect count) n s = Again s' \<and>
     (indirect_body vring indirect count s' = Return (indirect_loop vring indirect count s) \<or>
      (\<exists>ob'. indirect_body vring indirect count s' = Leave ob' \<and>
         indirect_loop vring indirect count s =
           \<lparr>ret = Ret 0, report = None, bufs = ob', vring_after = vring\<rparr>))"
  show ?case
  proof (cases "indirect_body vring indirect count s")
    case (Again s1)
    have eq: "indirect_loop vring indirect count s = indirect_loop vring indirect count s1"
      by (subst indirect_loop.simps) (simp add: Again)
    from 1 [OF Again] obtain n s' where "?Q s1 n s'" by blast
    with Again eq have "?Q s (Suc n) s'" by simp
    then show ?thesis by blast
  next
    case (Leave ob')
    have "indirect_loop vring indirect count s =
        \<lparr>ret = Ret 0, report = None, bufs = ob', vring_after = vring\<rparr>"
      by (subst indirect_loop.simps) (simp add: Leave)
    with Leave have "?Q s 0 s" by simp
    then show ?thesis by blast
  next
    case (Return r)
    have "indirect_loop vring indirect count s = r"
      by (subst indirect_loop.simps) (simp add: Return)
    with Return have "?Q s 0 s" by simp
    then show ?thesis by blast
  qed
qed



lemma next_head_publish [simp]:
  "next_head (publish_avail_event vdev vring) = next_head vring"
  by (simp add: next_head_def)



section \<open>Evaluating the examples\<close>

lemmas example_defs = vring_chain2_def vring_cycle_def vring_in_out_def vring_moved_def
  vring_scenario_def vring_indirect_def hostmem_table_def
  vring_table_loop_def vring_far_def hostmem_in_out_def vring_indirect_in_out_def
  vring_out_in_def vring_all_pending_def hostmem_readable_def vring_indirect_next_def
  with_desc_def one_request_def vring0_def hostmem0_def outbuf_of_def

lemmas pop_defs = vring_pop_def next_head_def publish_avail_event_def pop_body_def
  resolve_desc_def get_indirect_def indirect_body_def fatal_def Let_def
  VRING_DESC_F_NEXT_def VRING_DESC_F_WRITE_def VRING_DESC_F_INDIRECT_def
  VIRTIO_RING_F_EVENT_IDX_def sizeof_desc_def USHRT_MAX_def

text \<open>The lists of the examples, and the walks over the cycle and the looping table.\<close>

lemma outbuf_of_2:
  "outbuf_of 2 = \<lparr>iov = [\<lparr>iov_base = 0, iov_len = 0\<rparr>, \<lparr>iov_base = 0, iov_len = 0\<rparr>],
     out_num = 0, in_num = 0\<rparr>"
  by (simp add: outbuf_of_def eval_nat_numeral)


lemma outbuf_of_8:
  "outbuf_of 8 = \<lparr>iov = [\<lparr>iov_base = 0, iov_len = 0\<rparr>, \<lparr>iov_base = 0, iov_len = 0\<rparr>,
     \<lparr>iov_base = 0, iov_len = 0\<rparr>, \<lparr>iov_base = 0, iov_len = 0\<rparr>, \<lparr>iov_base = 0, iov_len = 0\<rparr>,
     \<lparr>iov_base = 0, iov_len = 0\<rparr>, \<lparr>iov_base = 0, iov_len = 0\<rparr>, \<lparr>iov_base = 0, iov_len = 0\<rparr>],
     out_num = 0, in_num = 0\<rparr>"
  by (simp add: outbuf_of_def eval_nat_numeral)






section \<open>The index check of vring_pop\<close>

text \<open>
  Claim C5. On a queue that is not broken: when \<^verbatim>\<open>avail.idx - last_avail_idx\<close>, taken
  mod \<open>2^16\<close>, is above \<open>num\<close>, \<^verbatim>\<open>vring_pop\<close> returns \<^verbatim>\<open>-EFAULT\<close>, sets \<open>broken\<close> and
  changes nothing else (the report is the one of the index check). When the difference is
  at most \<open>num\<close> the index check decides nothing: on an empty ring \<^verbatim>\<open>vring_pop\<close>
  returns \<^verbatim>\<open>-EAGAIN\<close> with the queue as it was, and otherwise its outcome is the one of
  the head test and of the walk; no outcome carries the report of the index check.
\<close>

theorem vring_pop_avail_idx_check:
  assumes "\<not> broken vring"
  shows "(unat (num (vr vring)) < unat (avail_idx (avail (vr vring)) - last_avail_idx vring) \<longrightarrow>
           (\<exists>r. vring_pop vdev vring ob = Some r \<and> ret r = Fail EFAULT \<and>
                broken (vring_after r) \<and> report r = Some Guest_moved_index \<and> bufs r = ob \<and>
                vring_after r = vring\<lparr>broken := True\<rparr>)) \<and>
         (unat (avail_idx (avail (vr vring)) - last_avail_idx vring) \<le> unat (num (vr vring)) \<longrightarrow>
           (\<forall>r. vring_pop vdev vring ob = Some r \<longrightarrow> report r \<noteq> Some Guest_moved_index) \<and>
           vring_pop vdev vring ob =
             (if avail_idx (avail (vr vring)) = last_avail_idx vring
              then Some \<lparr>ret = Fail EAGAIN, report = None, bufs = ob, vring_after = vring\<rparr>
              else if num (vr vring) \<le> next_head vring
              then Some \<lparr>ret = Fail EFAULT, report = Some Head_out_of_range, bufs = ob,
                         vring_after = vring\<lparr>broken := True\<rparr>\<rparr>
              else
                (case pop_loop (publish_avail_event vdev vring)
                        (next_head vring, 0, 0, ob\<lparr>out_num := 0, in_num := 0\<rparr>) of
                   None \<Rightarrow> None
                 | Some r \<Rightarrow>
                     (case ret r of
                        Fail e \<Rightarrow> Some r
                      | Ret z \<Rightarrow>
                          Some (r\<lparr>ret := Ret (next_head vring),
                                  vring_after := (vring_after r)
                                    \<lparr>last_avail_idx := last_avail_idx (vring_after r) + 1\<rparr>\<rparr>)))))"
proof (rule conjI)
  show "unat (num (vr vring)) < unat (avail_idx (avail (vr vring)) - last_avail_idx vring) \<longrightarrow>
           (\<exists>r. vring_pop vdev vring ob = Some r \<and> ret r = Fail EFAULT \<and>
                broken (vring_after r) \<and> report r = Some Guest_moved_index \<and> bufs r = ob \<and>
                vring_after r = vring\<lparr>broken := True\<rparr>)"
    using assms by (simp add: vring_pop_def Let_def ucast_16_32_less fatal_def)
next
  show "unat (avail_idx (avail (vr vring)) - last_avail_idx vring) \<le> unat (num (vr vring)) \<longrightarrow>
           (\<forall>r. vring_pop vdev vring ob = Some r \<longrightarrow> report r \<noteq> Some Guest_moved_index) \<and>
           vring_pop vdev vring ob =
             (if avail_idx (avail (vr vring)) = last_avail_idx vring
              then Some \<lparr>ret = Fail EAGAIN, report = None, bufs = ob, vring_after = vring\<rparr>
              else if num (vr vring) \<le> next_head vring
              then Some \<lparr>ret = Fail EFAULT, report = Some Head_out_of_range, bufs = ob,
                         vring_after = vring\<lparr>broken := True\<rparr>\<rparr>
              else
                (case pop_loop (publish_avail_event vdev vring)
                        (next_head vring, 0, 0, ob\<lparr>out_num := 0, in_num := 0\<rparr>) of
                   None \<Rightarrow> None
                 | Some r \<Rightarrow>
                     (case ret r of
                        Fail e \<Rightarrow> Some r
                      | Ret z \<Rightarrow>
                          Some (r\<lparr>ret := Ret (next_head vring),
                                  vring_after := (vring_after r)
                                    \<lparr>last_avail_idx := last_avail_idx (vring_after r) + 1\<rparr>\<rparr>))))"
  proof (intro impI conjI allI)
    fix r
    assume le: "unat (avail_idx (avail (vr vring)) - last_avail_idx vring) \<le> unat (num (vr vring))"
      and r: "vring_pop vdev vring ob = Some r"
    from r show "report r \<noteq> Some Guest_moved_index"
    proof (cases rule: vring_pop_cases)
      case failed
      from pop_loop_framed [OF failed(5)] Guest_moved_index_not_pop show ?thesis
        by (auto simp add: framed_def)
    next
      case (popped r')
      from pop_loop_framed [OF popped(5)] popped(6,7) show ?thesis
        by (auto simp add: framed_def)
    qed (use le assms in simp_all)
  next
    assume le: "unat (avail_idx (avail (vr vring)) - last_avail_idx vring) \<le> unat (num (vr vring))"
    with assms show "vring_pop vdev vring ob =
             (if avail_idx (avail (vr vring)) = last_avail_idx vring
              then Some \<lparr>ret = Fail EAGAIN, report = None, bufs = ob, vring_after = vring\<rparr>
              else if num (vr vring) \<le> next_head vring
              then Some \<lparr>ret = Fail EFAULT, report = Some Head_out_of_range, bufs = ob,
                         vring_after = vring\<lparr>broken := True\<rparr>\<rparr>
              else
                (case pop_loop (publish_avail_event vdev vring)
                        (next_head vring, 0, 0, ob\<lparr>out_num := 0, in_num := 0\<rparr>) of
                   None \<Rightarrow> None
                 | Some r \<Rightarrow>
                     (case ret r of
                        Fail e \<Rightarrow> Some r
                      | Ret z \<Rightarrow>
                          Some (r\<lparr>ret := Ret (next_head vring),
                                  vring_after := (vring_after r)
                                    \<lparr>last_avail_idx := last_avail_idx (vring_after r) + 1\<rparr>\<rparr>))))"
      by (simp add: vring_pop_def Let_def ucast_16_32_less fatal_def not_less)
  qed
qed

theorem vring_pop_avail_idx_check_witness:
  "\<not> broken vring_moved \<and>
   unat (avail_idx (avail (vr vring_moved)) - last_avail_idx vring_moved) = 5 \<and>
   unat (num (vr vring_moved)) = 4 \<and>
   vring_pop \<lparr>guest_features = 0\<rparr> vring_moved (outbuf_of 1) \<noteq> None \<and>
   ret (the (vring_pop \<lparr>guest_features = 0\<rparr> vring_moved (outbuf_of 1))) = Fail EFAULT \<and>
   broken (vring_after (the (vring_pop \<lparr>guest_features = 0\<rparr> vring_moved (outbuf_of 1)))) \<and>
   \<not> broken vring_all_pending \<and>
   unat (avail_idx (avail (vr vring_all_pending)) - last_avail_idx vring_all_pending) = 4 \<and>
   unat (num (vr vring_all_pending)) = 4 \<and>
   vring_pop \<lparr>guest_features = 0\<rparr> vring_all_pending (outbuf_of 1) =
     Some \<lparr>ret = Ret 2, report = None,
           bufs = \<lparr>iov = [\<lparr>iov_base = 0x8000, iov_len = 512\<rparr>], out_num = 0, in_num = 1\<rparr>,
           vring_after = vring_all_pending\<lparr>last_avail_idx := 1\<rparr>\<rparr> \<and>
   \<not> broken vring0 \<and>
   avail_idx (avail (vr vring0)) = last_avail_idx vring0 \<and>
   vring_pop \<lparr>guest_features = 0\<rparr> vring0 (outbuf_of 1) =
     Some \<lparr>ret = Fail EAGAIN, report = None, bufs = outbuf_of 1, vring_after = vring0\<rparr> \<and>
   \<not> broken (one_request 7 vring0) \<and>
   unat (avail_idx (avail (vr (one_request 7 vring0))) - last_avail_idx (one_request 7 vring0)) = 1 \<and>
   next_head (one_request 7 vring0) = 7 \<and>
   vring_pop \<lparr>guest_features = 0\<rparr> (one_request 7 vring0) (outbuf_of 1) =
     Some \<lparr>ret = Fail EFAULT, report = Some Head_out_of_range, bufs = outbuf_of 1,
           vring_after = (one_request 7 vring0)\<lparr>broken := True\<rparr>\<rparr>"
proof -
  let ?vdev = "\<lparr>guest_features = 0\<rparr>"
  have a: "\<not> broken vring_moved"
    "unat (avail_idx (avail (vr vring_moved)) - last_avail_idx vring_moved) = 5"
    "unat (num (vr vring_moved)) = 4"
    by (simp_all add: example_defs)
  from vring_pop_avail_idx_check [OF a(1), of ?vdev "outbuf_of 1", THEN conjunct1] a(2,3)
  have 1: "vring_pop ?vdev vring_moved (outbuf_of 1) \<noteq> None \<and>
     ret (the (vring_pop ?vdev vring_moved (outbuf_of 1))) = Fail EFAULT \<and>
     broken (vring_after (the (vring_pop ?vdev vring_moved (outbuf_of 1))))"
    by auto
  have b: "\<not> broken vring_all_pending"
    "unat (avail_idx (avail (vr vring_all_pending)) - last_avail_idx vring_all_pending) = 4"
    "unat (num (vr vring_all_pending)) = 4"
    by (simp_all add: example_defs vring_all_pending_def)
  have b': "avail_idx (avail (vr vring_all_pending)) \<noteq> last_avail_idx vring_all_pending"
    "\<not> num (vr vring_all_pending) \<le> next_head vring_all_pending"
    by (simp_all add: example_defs vring_all_pending_def next_head_def)
  have l: "pop_loop (publish_avail_event ?vdev vring_all_pending)
      (next_head vring_all_pending, 0, 0, (outbuf_of 1)\<lparr>out_num := 0, in_num := 0\<rparr>) =
      Some \<lparr>ret = Ret 0, report = None,
            bufs = \<lparr>iov = [\<lparr>iov_base = 0x8000, iov_len = 512\<rparr>], out_num = 0, in_num = 1\<rparr>,
            vring_after = vring_all_pending\<rparr>"
    by (simp add: pop_defs example_defs vring_all_pending_def pop_loop.simps)
  have h: "next_head vring_all_pending = 2"
    by (simp add: example_defs vring_all_pending_def next_head_def)
  have la: "last_avail_idx vring_all_pending = 0"
    by (simp add: example_defs vring_all_pending_def)
  from vring_pop_avail_idx_check [OF b(1), of ?vdev "outbuf_of 1", THEN conjunct2] b(2,3)
  have "vring_pop ?vdev vring_all_pending (outbuf_of 1) =
     (if avail_idx (avail (vr vring_all_pending)) = last_avail_idx vring_all_pending
      then Some \<lparr>ret = Fail EAGAIN, report = None, bufs = outbuf_of 1,
                 vring_after = vring_all_pending\<rparr>
      else if num (vr vring_all_pending) \<le> next_head vring_all_pending
      then Some \<lparr>ret = Fail EFAULT, report = Some Head_out_of_range, bufs = outbuf_of 1,
                 vring_after = vring_all_pending\<lparr>broken := True\<rparr>\<rparr>
      else
        (case pop_loop (publish_avail_event ?vdev vring_all_pending)
                (next_head vring_all_pending, 0, 0, (outbuf_of 1)\<lparr>out_num := 0, in_num := 0\<rparr>) of
           None \<Rightarrow> None
         | Some r \<Rightarrow>
             (case ret r of
                Fail e \<Rightarrow> Some r
              | Ret z \<Rightarrow>
                  Some (r\<lparr>ret := Ret (next_head vring_all_pending),
                          vring_after := (vring_after r)
                            \<lparr>last_avail_idx := last_avail_idx (vring_after r) + 1\<rparr>\<rparr>))))"
    by simp
  with b' l h la have 2: "vring_pop ?vdev vring_all_pending (outbuf_of 1) =
     Some \<lparr>ret = Ret 2, report = None,
           bufs = \<lparr>iov = [\<lparr>iov_base = 0x8000, iov_len = 512\<rparr>], out_num = 0, in_num = 1\<rparr>,
           vring_after = vring_all_pending\<lparr>last_avail_idx := 1\<rparr>\<rparr>"
    by simp
  have c: "\<not> broken vring0" "avail_idx (avail (vr vring0)) = last_avail_idx vring0"
    by (simp_all add: example_defs)
  from vring_pop_avail_idx_check [OF c(1), of ?vdev "outbuf_of 1", THEN conjunct2] c(2)
  have 3: "vring_pop ?vdev vring0 (outbuf_of 1) =
     Some \<lparr>ret = Fail EAGAIN, report = None, bufs = outbuf_of 1, vring_after = vring0\<rparr>"
    by simp
  have d: "\<not> broken (one_request 7 vring0)"
    "unat (avail_idx (avail (vr (one_request 7 vring0))) - last_avail_idx (one_request 7 vring0)) = 1"
    "next_head (one_request 7 vring0) = 7"
    by (simp_all add: example_defs next_head_def)
  have d': "unat (num (vr (one_request 7 vring0))) = 4"
    "avail_idx (avail (vr (one_request 7 vring0))) \<noteq> last_avail_idx (one_request 7 vring0)"
    "num (vr (one_request 7 vring0)) \<le> 7"
    by (simp_all add: example_defs word_le_nat_alt)
  from vring_pop_avail_idx_check [OF d(1), of ?vdev "outbuf_of 1", THEN conjunct2] d(2,3) d'
  have 4: "vring_pop ?vdev (one_request 7 vring0) (outbuf_of 1) =
     Some \<lparr>ret = Fail EFAULT, report = Some Head_out_of_range, bufs = outbuf_of 1,
           vring_after = (one_request 7 vring0)\<lparr>broken := True\<rparr>\<rparr>"
    by simp
  from a 1 b 2 c 3 d 4 show ?thesis by simp
qed

section \<open>Indirect tables are read in sequence\<close>

lemma resolve_desc_next [simp]:
  "resolve_desc vring (d\<lparr>desc_next := x\<rparr>) m1 m2 pos ob = resolve_desc vring d m1 m2 pos ob"
  by (simp add: resolve_desc_def Let_def)

lemma unat_inc_le:
  fixes found count :: "32 word"
  assumes "found < count"
  shows "unat (found + 1) = Suc (unat found)" and "found + 1 \<le> count"
proof -
  from assms have "unat found < unat count" by (simp add: word_less_nat_alt)
  moreover have "unat count < 2 ^ 32" using unsigned_less [of count] by simp
  ultimately have "unat found + unat (1 :: 32 word) < 2 ^ LENGTH(32)" by simp
  then have "unat (found + 1) = unat found + unat (1 :: 32 word)"
    by (simp only: unat_add_lem)
  then show "unat (found + 1) = Suc (unat found)" by simp
  from assms show "found + 1 \<le> count" by (rule inc_le)
qed

lemma indirect_loop_seq:
  assumes "unat count - unat found = n" and "found \<le> count" and "unat count \<le> USHRT_MAX + 1"
  shows "indirect_loop vring ind count (found, pos, ob) =
     seq_walk vring (unat count) (map (table_entry vring ind) [unat found ..< Suc (unat count)])
       (unat found) pos ob"
  using assms
proof (induction n arbitrary: found pos ob)
  case 0
  then have eq: "found = count" by (simp add: word_le_nat_alt word_unat_eq_iff)
  have c: "(of_nat (unat count) :: 64 word) = ucast count" by simp
  from 0(3) have "count \<noteq> - 1"
    by (auto simp add: USHRT_MAX_def unsigned_minus_1_eq_mask mask_eq_exp_minus_1)
  then have "count < count + 1" using inc_less_eq_iff [of count count] by (simp add: not_le [symmetric])
  then have b: "indirect_body vring ind count (count, pos, ob) =
     (if fst (table_entry vring ind (unat count)) = 0
      then Return (fatal Failed_to_map_indirect_descriptor ob vring)
      else Return (fatal Indirect_loop_detected ob vring))"
    by (simp add: indirect_body_def table_entry_def Let_def c)
  show ?case unfolding eq
    by (subst indirect_loop.simps) (simp add: b)
next
  case (Suc n)
  then have lt: "found < count" by (simp add: word_less_nat_alt)
  note inc = unat_inc_le [OF lt]
  have c: "(of_nat (unat found) :: 64 word) = ucast found" by simp
  from inc(2) have nl: "\<not> count < found + 1" by simp
  from lt have up: "[unat found ..< Suc (unat count)] =
      unat found # [Suc (unat found) ..< Suc (unat count)]"
    by (simp add: upt_conv_Cons word_less_nat_alt)
  from Suc(2) inc(1) have n: "unat count - unat (found + 1) = n" by simp
  note IH = Suc(1) [OF n inc(2) Suc(4)]
  let ?e = "table_entry vring ind (unat found)"
  have b: "indirect_body vring ind count (found, pos, ob) =
     (if fst ?e = 0 then Return (fatal Failed_to_map_indirect_descriptor ob vring)
      else if desc_flags (snd ?e) AND VRING_DESC_F_INDIRECT \<noteq> 0
      then Return (fatal Nested_indirect ob vring)
      else (case resolve_desc vring (snd ?e) Failed_to_map_indirect_buffer
                  Indirect_out_after_in pos ob of
              Inl r \<Rightarrow> Return r
            | Inr ob' \<Rightarrow>
               if desc_flags (snd ?e) AND VRING_DESC_F_NEXT \<noteq> 0
               then Again (found + 1, pos + 1, ob') else Leave ob'))"
    using nl by (simp add: indirect_body_def table_entry_def Let_def c split: sum.splits)
  show ?case
    apply (subst indirect_loop.simps)
    apply (simp only: b up list.map seq_walk.simps)
    using nl inc(1) apply (simp add: IH word_less_nat_alt split: sum.splits)
    done
qed


lemma table_entry_with_next [simp]:
  "table_entry (with_next f vring) ind = table_entry vring ind"
  by (rule ext) (simp add: table_entry_def with_next_def)

lemma resolve_desc_with_next:
  "resolve_desc (with_next f vring) d m1 m2 pos ob =
     (case resolve_desc vring d m1 m2 pos ob of
        Inl r \<Rightarrow> Inl (r\<lparr>vring_after := with_next f (vring_after r)\<rparr>)
      | Inr ob' \<Rightarrow> Inr ob')"
  by (simp add: resolve_desc_def Let_def fatal_def with_next_def)

lemma seq_walk_with_next:
  "seq_walk (with_next f vring) c es k pos ob =
     (seq_walk vring c es k pos ob)
       \<lparr>vring_after := with_next f (vring_after (seq_walk vring c es k pos ob))\<rparr>"
proof (induction es arbitrary: k pos ob)
  case Nil
  show ?case by (simp add: fatal_def with_next_def)
next
  case (Cons e es)
  show ?case
    by (simp add: resolve_desc_with_next Cons fatal_def split: sum.splits)
      (simp add: with_next_def)
qed

lemma get_indirect_seq:
  "get_indirect vring pos ob indirect =
     (if unat (desc_len indirect) mod sizeof_desc \<noteq> 0
      then fatal Invalid_indirect_length ob vring
      else if USHRT_MAX + 1 < unat (desc_len indirect div of_nat sizeof_desc)
      then fatal Indirect_too_big ob vring
      else seq_walk vring (unat (desc_len indirect div of_nat sizeof_desc))
             (map (table_entry vring indirect)
                [0 ..< Suc (unat (desc_len indirect div of_nat sizeof_desc))])
             0 pos ob)"
proof -
  have "indirect_loop vring indirect (desc_len indirect div of_nat sizeof_desc) (0, pos, ob) =
     seq_walk vring (unat (desc_len indirect div of_nat sizeof_desc))
             (map (table_entry vring indirect)
                [0 ..< Suc (unat (desc_len indirect div of_nat sizeof_desc))]) 0 pos ob"
    if "unat (desc_len indirect div of_nat sizeof_desc) \<le> USHRT_MAX + 1"
    using indirect_loop_seq [OF refl _ that, of 0 vring indirect pos ob] by simp
  then show ?thesis by (simp add: get_indirect_def Let_def not_less)
qed

lemma fatal_with_next:
  "fatal m ob (with_next f vring) =
     (fatal m ob vring)\<lparr>vring_after := with_next f (vring_after (fatal m ob vring))\<rparr>"
  by (simp add: fatal_def with_next_def)

lemma get_indirect_with_next:
  "get_indirect (with_next f vring) pos ob indirect =
     (get_indirect vring pos ob indirect)
       \<lparr>vring_after := with_next f (vring_after (get_indirect vring pos ob indirect))\<rparr>"
proof (cases "unat (desc_len indirect) mod sizeof_desc \<noteq> 0")
  case True
  then show ?thesis
    by (simp add: get_indirect_seq fatal_with_next)
next
  case a: False
  show ?thesis
  proof (cases "USHRT_MAX + 1 < unat (desc_len indirect div of_nat sizeof_desc)")
    case True
    with a show ?thesis
      by (simp add: get_indirect_seq fatal_with_next)
  next
    case False
    with a show ?thesis
      by (simp add: get_indirect_seq seq_walk_with_next)
  qed
qed

text \<open>
  Claim C9. \<^verbatim>\<open>get_indirect\<close> is the walk over the list of the table's entries
  \<open>0, 1, ..., count\<close>, entry \<open>k\<close> taken at byte offset \<open>k * sizeof(descriptor)\<close> from
  the table's base address, with the \<open>next\<close> field of every entry blanked: the walk
  takes the entries first to last and goes on to the following one exactly when the
  entry at hand has the \<^verbatim>\<open>NEXT\<close> flag. And whatever the \<open>next\<close> fields in host
  memory are replaced with, the call returns the same value, report and buffers.
\<close>

theorem get_indirect_sequential:
  "get_indirect vring pos ob indirect =
     (if unat (desc_len indirect) mod sizeof_desc \<noteq> 0
      then fatal Invalid_indirect_length ob vring
      else if USHRT_MAX + 1 < unat (desc_len indirect div of_nat sizeof_desc)
      then fatal Indirect_too_big ob vring
      else seq_walk vring (unat (desc_len indirect div of_nat sizeof_desc))
             (map (table_entry vring indirect)
                [0 ..< Suc (unat (desc_len indirect div of_nat sizeof_desc))])
             0 pos ob) \<and>
   get_indirect (with_next f vring) pos ob indirect =
     (get_indirect vring pos ob indirect)
       \<lparr>vring_after := with_next f (vring_after (get_indirect vring pos ob indirect))\<rparr>"
  using get_indirect_seq [of vring pos ob indirect]
    get_indirect_with_next [of f vring pos ob indirect]
  by (rule conjI)

theorem get_indirect_sequential_witness:
  "map fst [table_entry vring_indirect (desc (vr vring_indirect) 0) 0,
            table_entry vring_indirect (desc (vr vring_indirect) 0) 1,
            table_entry vring_indirect (desc (vr vring_indirect) 0) 2] =
     [0x4000, 0x4010, 0x4020] \<and>
   desc_next (load_desc (hostmem vring_indirect) 0x4000) = 7 \<and>
   get_indirect vring_indirect 0 (outbuf_of 4) (desc (vr vring_indirect) 0) =
     seq_walk vring_indirect 2
       [table_entry vring_indirect (desc (vr vring_indirect) 0) 0,
        table_entry vring_indirect (desc (vr vring_indirect) 0) 1,
        table_entry vring_indirect (desc (vr vring_indirect) 0) 2] 0 0 (outbuf_of 4) \<and>
   bufs (get_indirect (with_next (\<lambda>p. 3) vring_indirect) 0 (outbuf_of 4)
          (desc (vr vring_indirect) 0)) =
     bufs (get_indirect vring_indirect 0 (outbuf_of 4) (desc (vr vring_indirect) 0))"
proof -
  have d: "desc_len (desc (vr vring_indirect) 0) div of_nat sizeof_desc = 2"
    "unat (desc_len (desc (vr vring_indirect) 0)) mod sizeof_desc = 0"
    by (simp_all add: example_defs sizeof_desc_def)
  have u: "[0 ..< Suc (unat (2 :: 32 word))] = [0, 1, 2]"
    by (simp add: upt_rec)
  have e: "map fst [table_entry vring_indirect (desc (vr vring_indirect) 0) 0,
            table_entry vring_indirect (desc (vr vring_indirect) 0) 1,
            table_entry vring_indirect (desc (vr vring_indirect) 0) 2] =
     [0x4000, 0x4010, 0x4020]"
    "desc_next (load_desc (hostmem vring_indirect) 0x4000) = 7"
    by (simp_all add: table_entry_def example_defs sizeof_desc_def)
  from get_indirect_sequential [of vring_indirect 0 "outbuf_of 4" "desc (vr vring_indirect) 0"
      "\<lambda>p. 3"] d u e
  show ?thesis by (simp add: USHRT_MAX_def)
qed

section \<open>Running out of room\<close>




lemma indirect_body_entry:
  assumes "\<not> count < found + 1"
  shows "indirect_body vring ind count (found, pos, ob) =
     (if fst (table_entry vring ind (unat found)) = 0
      then Return (fatal Failed_to_map_indirect_descriptor ob vring)
      else if desc_flags (snd (table_entry vring ind (unat found))) AND VRING_DESC_F_INDIRECT \<noteq> 0
      then Return (fatal Nested_indirect ob vring)
      else (case resolve_desc vring (snd (table_entry vring ind (unat found)))
                  Failed_to_map_indirect_buffer Indirect_out_after_in pos ob of
              Inl r \<Rightarrow> Return r
            | Inr ob' \<Rightarrow>
               if desc_flags (snd (table_entry vring ind (unat found))) AND VRING_DESC_F_NEXT \<noteq> 0
               then Again (found + 1, pos + 1, ob') else Leave ob'))"
proof -
  have c: "(of_nat (unat found) :: 64 word) = ucast found" by simp
  from assms show ?thesis
    by (simp add: indirect_body_def table_entry_def Let_def c split: sum.splits)
qed

lemma pop_body_enobufs:
  assumes "pop_body vring (i, found, pos, ob) = Return r" and "ret r = Fail ENOBUFS"
  shows "i < num (vr vring) \<and> found + 1 \<le> num (vr vring) \<and>
         (if desc_flags (desc (vr vring) (unat i)) AND VRING_DESC_F_INDIRECT \<noteq> 0
          then r = get_indirect vring pos ob (desc (vr vring) (unat i))
          else length (iov ob) \<le> pos \<and>
               r = \<lparr>ret = Fail ENOBUFS, report = None, bufs = ob, vring_after = vring\<rparr>)"
proof -
  let ?d = "desc (vr vring) (unat i)"
  have rd: "length (iov ob) \<le> pos \<and>
       r' = \<lparr>ret = Fail ENOBUFS, report = None, bufs = ob, vring_after = vring\<rparr>"
    if "resolve_desc vring ?d Failed_to_map_desc Out_after_in pos ob = Inl r'"
      and "ret r' = Fail ENOBUFS" for r'
    using resolve_desc_Inl [OF that(1)] that(2) by auto
  from assms rd show ?thesis
    unfolding pop_body_def Let_def
    apply (simp split: if_splits sum.splits retval.splits)
       apply (clarsimp simp add: not_le not_less)+
    done
qed

lemma indirect_body_enobufs:
  assumes "indirect_body vring ind count (f, p, ob) = Return r" and "ret r = Fail ENOBUFS"
  shows "fst (table_entry vring ind (unat f)) \<noteq> 0 \<and> f + 1 \<le> count \<and>
         desc_flags (snd (table_entry vring ind (unat f))) AND VRING_DESC_F_INDIRECT = 0 \<and>
         length (iov ob) \<le> p \<and>
         r = \<lparr>ret = Fail ENOBUFS, report = None, bufs = ob, vring_after = vring\<rparr>"
proof (cases "count < f + 1")
  case True
  have c: "(of_nat (unat f) :: 64 word) = ucast f" by simp
  from assms True show ?thesis
    by (auto simp add: indirect_body_def Let_def split: if_splits)
next
  case False
  note b = indirect_body_entry [OF False, of vring ind p ob]
  let ?e = "table_entry vring ind (unat f)"
  have rd: "length (iov ob) \<le> p \<and>
       r' = \<lparr>ret = Fail ENOBUFS, report = None, bufs = ob, vring_after = vring\<rparr>"
    if "resolve_desc vring (snd ?e) Failed_to_map_indirect_buffer Indirect_out_after_in p ob
          = Inl r'"
      and "ret r' = Fail ENOBUFS" for r'
    using resolve_desc_Inl [OF that(1)] that(2) by auto
  from assms b rd False show ?thesis
    apply (simp split: if_splits sum.splits)
    apply (clarsimp simp add: not_le not_less)+
    done
qed

lemma get_indirect_enobufs:
  assumes "ret (get_indirect vring pos ob d) = Fail ENOBUFS"
  shows "unat (desc_len d) mod sizeof_desc = 0 \<and>
         unat (desc_len d div of_nat sizeof_desc) \<le> USHRT_MAX + 1 \<and>
         (\<exists>k f p ob''.
            passes (indirect_body vring d (desc_len d div of_nat sizeof_desc)) k (0, pos, ob)
              = Again (f, p, ob'') \<and>
            fst (table_entry vring d (unat f)) \<noteq> 0 \<and>
            f + 1 \<le> desc_len d div of_nat sizeof_desc \<and>
            desc_flags (snd (table_entry vring d (unat f))) AND VRING_DESC_F_INDIRECT = 0 \<and>
            length (iov ob'') \<le> p \<and>
            get_indirect vring pos ob d =
              \<lparr>ret = Fail ENOBUFS, report = None, bufs = ob'', vring_after = vring\<rparr>)"
proof -
  let ?c = "desc_len d div of_nat sizeof_desc"
  from assms have m: "unat (desc_len d) mod sizeof_desc = 0"
    and c: "unat ?c \<le> USHRT_MAX + 1"
    and g: "get_indirect vring pos ob d = indirect_loop vring d ?c (0, pos, ob)"
    by (auto simp add: get_indirect_def Let_def split: if_splits)
  from indirect_loop_trace [of vring d ?c "(0, pos, ob)"] obtain k s' where
    p: "passes (indirect_body vring d ?c) k (0, pos, ob) = Again s'"
    and e: "indirect_body vring d ?c s' = Return (indirect_loop vring d ?c (0, pos, ob)) \<or>
      (\<exists>ob'. indirect_body vring d ?c s' = Leave ob' \<and>
         indirect_loop vring d ?c (0, pos, ob) =
           \<lparr>ret = Ret 0, report = None, bufs = ob', vring_after = vring\<rparr>)"
    by blast
  obtain f p' ob'' where s': "s' = (f, p', ob'')" by (cases s') auto
  from e assms g have "indirect_body vring d ?c (f, p', ob'') =
      Return (indirect_loop vring d ?c (0, pos, ob))"
    by (auto simp add: s')
  from indirect_body_enobufs [OF this] assms g p m c show ?thesis
    by (auto simp add: s')
qed

lemma enobufs_full:
  assumes "vring_pop vdev vring ob = Some r" and "ret r = Fail ENOBUFS"
  shows "walk_starts vring \<and> (\<exists>n k. list_full_at vdev vring ob n k)"
  using assms(1)
proof (cases rule: vring_pop_cases)
  case failed
  let ?v = "publish_avail_event vdev vring"
  let ?s = "(next_head vring, 0 :: 32 word, 0 :: nat, ob\<lparr>out_num := 0, in_num := 0\<rparr>)"
  from failed(1-4) have w: "walk_starts vring" by (simp add: walk_starts_def)
  from pop_loop_trace [OF failed(5)] assms(2) obtain n s' where
    p: "passes (pop_body ?v) n ?s = Again s'" and b: "pop_body ?v s' = Return r"
    by auto
  obtain i found pos ob' where s': "s' = (i, found, pos, ob')" by (cases s') auto
  note E = pop_body_enobufs [OF b [unfolded s'] assms(2)]
  let ?d = "desc (vr ?v) (unat i)"
  show ?thesis
  proof (cases "desc_flags ?d AND VRING_DESC_F_INDIRECT \<noteq> 0")
    case False
    with E p have "list_full_at vdev vring ob n 0"
      by (simp add: list_full_at_def Let_def s')
    with w show ?thesis by blast
  next
    case True
    with E have g: "r = get_indirect ?v pos ob' ?d" by simp
    with assms(2) have "ret (get_indirect ?v pos ob' ?d) = Fail ENOBUFS" by simp
    from get_indirect_enobufs [OF this] obtain k f p' ob'' where
      "unat (desc_len ?d) mod sizeof_desc = 0"
      "unat (desc_len ?d div of_nat sizeof_desc) \<le> USHRT_MAX + 1"
      "passes (indirect_body ?v ?d (desc_len ?d div of_nat sizeof_desc)) k (0, pos, ob')
              = Again (f, p', ob'')"
      "fst (table_entry ?v ?d (unat f)) \<noteq> 0"
      "f + 1 \<le> desc_len ?d div of_nat sizeof_desc"
      "desc_flags (snd (table_entry ?v ?d (unat f))) AND VRING_DESC_F_INDIRECT = 0"
      "length (iov ob'') \<le> p'"
      by (elim conjE exE) (rule that)
    with E p True have "list_full_at vdev vring ob n k"
      by (simp add: list_full_at_def Let_def s')
    with w show ?thesis by blast
  qed
qed (use assms(2) in simp_all)



text \<open>
  The same with a link that leaves the table: with room for one span, the walk fills
  the list at descriptor 0, and the index test on its successor 9 is fatal.
\<close>

lemma far_link_with_no_room:
  "passes (pop_body (publish_avail_event \<lparr>guest_features = 0\<rparr> vring_far)) 1
     (next_head vring_far, 0, 0, (outbuf_of 1)\<lparr>out_num := 0, in_num := 0\<rparr>) =
     Again (9, 1, 1, \<lparr>iov = [\<lparr>iov_base = 0x1000, iov_len = 16\<rparr>], out_num = 1, in_num = 0\<rparr>) \<and>
   vring_pop \<lparr>guest_features = 0\<rparr> vring_far (outbuf_of 1) =
     Some \<lparr>ret = Fail EFAULT, report = Some Desc_index_out_of_range,
           bufs = \<lparr>iov = [\<lparr>iov_base = 0x1000, iov_len = 16\<rparr>], out_num = 1, in_num = 0\<rparr>,
           vring_after = vring_far\<lparr>broken := True\<rparr>\<rparr>"
  by (simp add: pop_defs example_defs vring_far_def pop_loop.simps word_le_nat_alt)



section \<open>The walk is bounded\<close>

lemma unat_inc:
  fixes w :: "32 word"
  assumes "w \<noteq> - 1"
  shows "unat (w + 1) = Suc (unat w)"
proof -
  from assms have "1 + w \<noteq> 0" by (metis add.commute eq_neg_iff_add_eq_0)
  then show ?thesis by (simp add: unatSuc add.commute)
qed

lemma le_not_max:
  fixes a b :: "32 word"
  shows "a \<le> b \<Longrightarrow> b \<noteq> - 1 \<Longrightarrow> a \<noteq> - 1"
  by (auto simp add: word_order.extremum_unique)


text \<open>The loop of \<^verbatim>\<open>vring_pop\<close> returns, for every queue size but the largest \<^verbatim>\<open>unsigned int\<close>.\<close>

lemma left_decreases:
  assumes "n \<noteq> - 1" and "found + 1 \<le> n"
  shows "passes_left n (found + 1) < passes_left n found"
proof (cases "found = - 1")
  case True
  then show ?thesis by (simp add: passes_left_def)
next
  case False
  from assms have "found + 1 \<noteq> - 1" by (rule le_not_max [rotated])
  moreover from assms(2) have "unat (found + 1) \<le> unat n" by (simp add: word_le_nat_alt)
  ultimately show ?thesis using False by (simp add: passes_left_def unat_inc)
qed

lemma pop_loop_terminates:
  assumes "num (vr vring) \<noteq> - 1"
  shows "\<exists>r. pop_loop vring s = Some r"
proof (induction "passes_left (num (vr vring)) (fst (snd s))" arbitrary: s rule: less_induct)
  case less
  obtain i found pos ob where s: "s = (i, found, pos, ob)" by (cases s) auto
  show ?case
  proof (cases "pop_body vring s")
    case (Again s')
    obtain i' found' pos' ob' where s': "s' = (i', found', pos', ob')" by (cases s') auto
    from pop_body_Again [OF Again [unfolded s s']]
    have "found' = found + 1" "found + 1 \<le> num (vr vring)" by simp_all
    with left_decreases [OF assms, of found]
    have "passes_left (num (vr vring)) (fst (snd s')) < passes_left (num (vr vring)) (fst (snd s))"
      by (simp add: s s')
    from less [OF this] Again show ?thesis by (subst pop_loop.simps) simp
  next
    case (Leave ob')
    then show ?thesis by (subst pop_loop.simps) simp
  next
    case (Return r)
    then show ?thesis by (subst pop_loop.simps) simp
  qed
qed

lemma vring_pop_terminates:
  assumes "num (vr vring) \<noteq> - 1"
  shows "\<exists>r. vring_pop vdev vring ob = Some r"
proof -
  from assms have "num (vr (publish_avail_event vdev vring)) \<noteq> - 1" by simp
  from pop_loop_terminates [OF this]
  obtain r where "pop_loop (publish_avail_event vdev vring)
      (next_head vring, 0, 0, ob\<lparr>out_num := 0, in_num := 0\<rparr>) = Some r" by blast
  then show ?thesis
    by (simp add: vring_pop_def Let_def split: retval.splits)
qed





lemma pop_body_Again_cases:
  assumes "pop_body vring (i, found, pos, ob) = Again (i', found', pos', ob')"
  shows "desc_flags (desc (vr vring) (unat i)) AND VRING_DESC_F_INDIRECT \<noteq> 0 \<and>
           i' = i \<and> pos' = pos \<and>
           ret (get_indirect vring pos ob (desc (vr vring) (unat i))) = Ret 0 \<and>
           ob' = bufs (get_indirect vring pos ob (desc (vr vring) (unat i))) \<or>
         desc_flags (desc (vr vring) (unat i)) AND VRING_DESC_F_INDIRECT = 0 \<and>
           i' = ucast (desc_next (desc (vr vring) (unat i))) \<and> pos' = pos + 1 \<and>
           resolve_desc vring (desc (vr vring) (unat i)) Failed_to_map_desc Out_after_in pos ob
             = Inr ob'"
proof -
  have gi: "framed get_indirect_reports vring ob
      (get_indirect vring pos ob (desc (vr vring) (unat i)))"
    by (rule get_indirect_framed)
  from assms gi show ?thesis
    unfolding pop_body_def Let_def
    apply (simp split: if_splits sum.splits retval.splits)
    apply (clarsimp simp add: framed_def)
    done
qed

lemma pop_body_Leave_cases:
  assumes "pop_body vring (i, found, pos, ob) = Leave ob'"
  shows "desc_flags (desc (vr vring) (unat i)) AND VRING_DESC_F_INDIRECT \<noteq> 0 \<and>
           ret (get_indirect vring pos ob (desc (vr vring) (unat i))) = Ret 0 \<and>
           ob' = bufs (get_indirect vring pos ob (desc (vr vring) (unat i))) \<or>
         desc_flags (desc (vr vring) (unat i)) AND VRING_DESC_F_INDIRECT = 0 \<and>
           resolve_desc vring (desc (vr vring) (unat i)) Failed_to_map_desc Out_after_in pos ob
             = Inr ob'"
proof -
  have gi: "framed get_indirect_reports vring ob
      (get_indirect vring pos ob (desc (vr vring) (unat i)))"
    by (rule get_indirect_framed)
  from assms gi show ?thesis
    unfolding pop_body_def Let_def
    apply (simp split: if_splits sum.splits retval.splits)
    apply (clarsimp simp add: framed_def)
    done
qed

text \<open>
  A walk that is left has followed a chain that ends: it never left an indirect
  descriptor with the \<^verbatim>\<open>NEXT\<close> flag behind, and the links it followed are the chain's.
\<close>

lemma pop_loop_success:
  assumes "pop_loop vring s = Some r" and "ret r = Ret 0"
  shows "\<not> (desc_flags (desc (vr vring) (unat (fst s))) AND VRING_DESC_F_INDIRECT \<noteq> 0 \<and>
            desc_flags (desc (vr vring) (unat (fst s))) AND VRING_DESC_F_NEXT \<noteq> 0) \<and>
         (fst (snd s) \<le> num (vr vring) \<and> num (vr vring) \<noteq> - 1 \<longrightarrow>
            chain_ends (vr vring) (unat (num (vr vring)) - unat (fst (snd s))) (fst s))"
  using assms
proof (induction rule: pop_loop.raw_induct [rotated, consumes 1])
  case (1 pop_loop vring s r)
  obtain i found pos ob where s: "s = (i, found, pos, ob)" by (cases s) auto
  let ?d = "desc (vr vring) (unat i)"
  let ?n = "num (vr vring)"
  have step: "chain_ends (vr vring) (unat ?n - unat found) i =
       (if desc_flags ?d AND VRING_DESC_F_NEXT \<noteq> 0
        then chain_ends (vr vring) (unat ?n - unat (found + 1)) (ucast (desc_next ?d))
        else True)"
    if a: "i < ?n" "found + 1 \<le> ?n" "found \<le> ?n" "?n \<noteq> - 1"
  proof -
    from a(3,4) have nm: "found \<noteq> - 1" by (rule le_not_max)
    from a(2) have "unat (found + 1) \<le> unat ?n" by (simp add: word_le_nat_alt)
    with nm have "unat ?n - unat found = Suc (unat ?n - unat (found + 1))"
      by (simp add: unat_inc)
    with a(1) show ?thesis by simp
  qed
  show ?case
  proof (cases "pop_body vring s")
    case (Again s')
    obtain i' found' pos' ob' where s': "s' = (i', found', pos', ob')" by (cases s') auto
    note A = pop_body_Again [OF Again [unfolded s s']]
    note C = pop_body_Again_cases [OF Again [unfolded s s']]
    from 1(2) Again have "pop_loop vring s' = Some r" by simp
    note IH = 1(1) [OF this 1(3)]
    from C show ?thesis
    proof
      assume "desc_flags ?d AND VRING_DESC_F_INDIRECT \<noteq> 0 \<and>
           i' = i \<and> pos' = pos \<and>
           ret (get_indirect vring pos ob ?d) = Ret 0 \<and>
           ob' = bufs (get_indirect vring pos ob ?d)"
      with A IH show ?thesis by (simp add: s s')
    next
      assume d: "desc_flags ?d AND VRING_DESC_F_INDIRECT = 0 \<and>
           i' = ucast (desc_next ?d) \<and> pos' = pos + 1 \<and>
           resolve_desc vring ?d Failed_to_map_desc Out_after_in pos ob = Inr ob'"
      show ?thesis
      proof (intro conjI impI)
        from d show "\<not> (desc_flags (desc (vr vring) (unat (fst s))) AND VRING_DESC_F_INDIRECT \<noteq> 0 \<and>
            desc_flags (desc (vr vring) (unat (fst s))) AND VRING_DESC_F_NEXT \<noteq> 0)"
          by (simp add: s)
      next
        assume b: "fst (snd s) \<le> ?n \<and> ?n \<noteq> - 1"
        with A have "chain_ends (vr vring) (unat ?n - unat (found + 1)) (ucast (desc_next ?d))"
          using IH d by (simp add: s s')
        with step A b show "chain_ends (vr vring) (unat ?n - unat (fst (snd s))) (fst s)"
          by (simp add: s)
      qed
    qed
  next
    case (Leave ob')
    note L = pop_body_Leave [OF Leave [unfolded s]]
    with step show ?thesis by (simp add: s)
  next
    case (Return r')
    with 1(2) have "r = r'" by simp
    with pop_body_Return [OF Return [unfolded s]] 1(3) show ?thesis by simp
  qed
qed













text \<open>
  The bound inside a table is a bound for one pass over its descriptor. An indirect
  descriptor with the \<^verbatim>\<open>NEXT\<close> flag is passed again: the \<^verbatim>\<open>continue\<close> behind
  \<^verbatim>\<open>get_indirect\<close> skips \<^verbatim>\<open>i = desc.next\<close> and leaves the position in the list where it
  was. On a queue of four, the table of two entries of such a head is walked four times,
  eight entries are counted in \<^verbatim>\<open>*out_num\<close>, and the call ends with the loop report,
  although the chain of the head ends at descriptor 1.
\<close>

lemma indirect_with_next_walked_again:
  "chain_ends (vr vring_indirect_next) (unat (num (vr vring_indirect_next)))
     (next_head vring_indirect_next) \<and>
   unat (desc_len (desc (vr vring_indirect_next) 0)) div sizeof_desc = 2 \<and>
   vring_pop \<lparr>guest_features = 0\<rparr> vring_indirect_next (outbuf_of 8) =
     Some \<lparr>ret = Fail EFAULT, report = Some Loop_detected,
           bufs = \<lparr>iov = [\<lparr>iov_base = 0x5000, iov_len = 64\<rparr>, \<lparr>iov_base = 0x6000, iov_len = 64\<rparr>,
                          \<lparr>iov_base = 0, iov_len = 0\<rparr>, \<lparr>iov_base = 0, iov_len = 0\<rparr>,
                          \<lparr>iov_base = 0, iov_len = 0\<rparr>, \<lparr>iov_base = 0, iov_len = 0\<rparr>,
                          \<lparr>iov_base = 0, iov_len = 0\<rparr>, \<lparr>iov_base = 0, iov_len = 0\<rparr>],
                    out_num = 8, in_num = 0\<rparr>,
           vring_after = vring_indirect_next\<lparr>broken := True\<rparr>\<rparr>"
proof -
  have n: "unat (num (vr vring_indirect_next)) = Suc (Suc (Suc (Suc 0)))"
    by (simp add: example_defs vring_indirect_next_def)
  have 1: "chain_ends (vr vring_indirect_next) (Suc (Suc (Suc (Suc 0))))
     (next_head vring_indirect_next)"
    by (simp add: next_head_def example_defs vring_indirect_next_def VRING_DESC_F_NEXT_def
        word_less_nat_alt)
  have 2: "unat (desc_len (desc (vr vring_indirect_next) 0)) div sizeof_desc = 2"
    by (simp add: example_defs vring_indirect_next_def sizeof_desc_def)
  have 3: "vring_pop \<lparr>guest_features = 0\<rparr> vring_indirect_next (outbuf_of 8) =
     Some \<lparr>ret = Fail EFAULT, report = Some Loop_detected,
           bufs = \<lparr>iov = [\<lparr>iov_base = 0x5000, iov_len = 64\<rparr>, \<lparr>iov_base = 0x6000, iov_len = 64\<rparr>,
                          \<lparr>iov_base = 0, iov_len = 0\<rparr>, \<lparr>iov_base = 0, iov_len = 0\<rparr>,
                          \<lparr>iov_base = 0, iov_len = 0\<rparr>, \<lparr>iov_base = 0, iov_len = 0\<rparr>,
                          \<lparr>iov_base = 0, iov_len = 0\<rparr>, \<lparr>iov_base = 0, iov_len = 0\<rparr>],
                    out_num = 8, in_num = 0\<rparr>,
           vring_after = vring_indirect_next\<lparr>broken := True\<rparr>\<rparr>"
    unfolding outbuf_of_8
    by (simp add: pop_defs example_defs vring_indirect_next_def hostmem_readable_def
        pop_loop.simps indirect_loop.simps word_le_nat_alt)
  from 1 have c1: "chain_ends (vr vring_indirect_next) (unat (num (vr vring_indirect_next)))
     (next_head vring_indirect_next)" by (simp only: n)
  from c1 2 3 show ?thesis by (intro conjI)
qed

text \<open>
  The bound on \<open>num\<close> is needed. The pass counter \<open>found\<close> is an \<^verbatim>\<open>unsigned int\<close>, so
  with \<open>num = 2^32 - 1\<close> the test \<^verbatim>\<open>++found > num\<close> never holds; an indirect descriptor
  that names itself as its successor leaves the position in the caller's list where
  it was, and the walk never returns.
\<close>

lemma vring_wide_pass:
  assumes "length (iov ob) = 1"
  shows "\<exists>ob'. pop_body vring_wide (0, found, 0, ob) = Again (0, found + 1, 0, ob') \<and>
           length (iov ob') = 1"
proof -
  let ?d = "\<lparr>desc_addr = 0x6000, desc_len = 16, desc_flags = 5, desc_next = 0\<rparr>"
  from assms have ne: "iov ob \<noteq> []" by auto
  have b: "indirect_body vring_wide ?d 1 (0, 0, ob) \<noteq> Again s" for s
    using assms ne
    by (simp add: indirect_body_def resolve_desc_def Let_def vring_wide_def example_defs
        fatal_def VRING_DESC_F_NEXT_def VRING_DESC_F_WRITE_def VRING_DESC_F_INDIRECT_def
        sizeof_desc_def)
  have l: "\<exists>ob'. indirect_body vring_wide ?d 1 (0, 0, ob) = Leave ob' \<and> length (iov ob') = 1"
    using assms ne
    by (simp add: indirect_body_def resolve_desc_def Let_def vring_wide_def example_defs
        fatal_def VRING_DESC_F_NEXT_def VRING_DESC_F_WRITE_def VRING_DESC_F_INDIRECT_def
        sizeof_desc_def)
  then obtain ob' where ob': "indirect_body vring_wide ?d 1 (0, 0, ob) = Leave ob'"
    "length (iov ob') = 1" by blast
  then have "indirect_loop vring_wide ?d 1 (0, 0, ob) =
      \<lparr>ret = Ret 0, report = None, bufs = ob', vring_after = vring_wide\<rparr>"
    by (subst indirect_loop.simps) simp
  then have g: "get_indirect vring_wide 0 ob ?d =
      \<lparr>ret = Ret 0, report = None, bufs = ob', vring_after = vring_wide\<rparr>"
    by (simp add: get_indirect_def sizeof_desc_def USHRT_MAX_def)
  have d: "desc (vr vring_wide) 0 = ?d" "num (vr vring_wide) = - 1"
    by (simp_all add: vring_wide_def example_defs)
  have "pop_body vring_wide (0, found, 0, ob) = Again (0, found + 1, 0, ob')"
    by (simp add: pop_body_def d g VRING_DESC_F_NEXT_def VRING_DESC_F_INDIRECT_def
        word_order.extremum_unique not_less)
  with ob'(2) show ?thesis by blast
qed

lemma vring_wide_never_returns:
  assumes "pop_loop vring s = Some r"
  shows "\<not> (vring = vring_wide \<and> fst s = 0 \<and> fst (snd (snd s)) = 0 \<and>
            length (iov (snd (snd (snd s)))) = 1)"
  using assms
proof (induction rule: pop_loop.raw_induct [rotated, consumes 1])
  case (1 pop_loop vring s r)
  show ?case
  proof
    assume a: "vring = vring_wide \<and> fst s = 0 \<and> fst (snd (snd s)) = 0 \<and>
            length (iov (snd (snd (snd s)))) = 1"
    obtain i found pos ob where s: "s = (i, found, pos, ob)" by (cases s) auto
    from a s have "length (iov ob) = 1" "i = 0" "pos = 0" "vring = vring_wide" by simp_all
    with vring_wide_pass [of ob found] obtain ob' where
      "pop_body vring s = Again (0, found + 1, 0, ob')" "length (iov ob') = 1"
      by (auto simp add: s)
    with 1(2) have "pop_loop vring (0, found + 1, 0, ob') = Some r" by simp
    from 1(1) [OF this] a \<open>length (iov ob') = 1\<close> show False by simp
  qed
qed

lemma vring_pop_diverges:
  "num (vr vring_wide) = - 1 \<and> vring_pop \<lparr>guest_features = 0\<rparr> vring_wide (outbuf_of 1) = None"
proof -
  have "pop_loop vring_wide (0, 0, 0, (outbuf_of 1)\<lparr>out_num := 0, in_num := 0\<rparr>) = None"
    using vring_wide_never_returns
      [of vring_wide "(0, 0, 0, (outbuf_of 1)\<lparr>out_num := 0, in_num := 0\<rparr>)"]
    by (cases "pop_loop vring_wide (0, 0, 0, (outbuf_of 1)\<lparr>out_num := 0, in_num := 0\<rparr>)")
      (simp_all add: outbuf_of_def)
  moreover have "next_head vring_wide = 0" "\<not> broken vring_wide"
    "avail_idx (avail (vr vring_wide)) - last_avail_idx vring_wide = 1"
    "avail_idx (avail (vr vring_wide)) \<noteq> last_avail_idx vring_wide"
    "num (vr vring_wide) = - 1"
    by (simp_all add: next_head_def vring_wide_def example_defs)
  moreover have "publish_avail_event \<lparr>guest_features = 0\<rparr> vring_wide = vring_wide"
    by (simp add: publish_avail_event_def)
  ultimately show ?thesis
    by (simp add: vring_pop_def Let_def word_order.extremum_unique not_less)
qed

section \<open>Out before in\<close>

lemma unat_inc_bound:
  fixes w :: "32 word"
  shows "unat (w + 1) \<le> Suc (unat w)"
  by (cases "w = - 1") (simp_all add: unat_inc)

lemma table_entry_flags:
  "desc_flags (snd (table_entry vring ind k)) =
     desc_flags (load_desc (hostmem vring) (fst (table_entry vring ind k)))"
  by (simp add: table_entry_def Let_def)

lemma indirect_loop_order:
  assumes "unat count - unat found = n" and "found \<le> count"
    and "ret (indirect_loop vring ind count (found, pos, ob)) = Ret 0"
    and "unat (in_num ob) + n < 2 ^ 32"
  shows "\<not> out_after_in (table_chain vring ind n (unat found)) \<and>
         (in_num ob \<noteq> 0 \<longrightarrow>
            list_all (\<lambda>d. desc_flags d AND VRING_DESC_F_WRITE \<noteq> 0)
              (table_chain vring ind n (unat found)))"
  using assms
proof (induction n arbitrary: found pos ob)
  case 0
  then show ?case by simp
next
  case (Suc n)
  then have lt: "found < count" by (simp add: word_less_nat_alt)
  note inc = unat_inc_le [OF lt]
  from inc(2) have nl: "\<not> count < found + 1" by simp
  let ?e = "table_entry vring ind (unat found)"
  let ?W = "\<lambda>d. desc_flags d AND VRING_DESC_F_WRITE \<noteq> 0"
  note b = indirect_body_entry [OF nl, of vring ind pos ob]
  from Suc(4) b obtain ob' where
    rd: "resolve_desc vring (snd ?e) Failed_to_map_indirect_buffer Indirect_out_after_in pos ob
           = Inr ob'"
    and nx: "desc_flags (snd ?e) AND VRING_DESC_F_NEXT \<noteq> 0 \<Longrightarrow>
      ret (indirect_loop vring ind count (found + 1, pos + 1, ob')) = Ret 0"
    by (subst (asm) indirect_loop.simps) (auto split: if_splits sum.splits dest!: resolve_desc_Inl)
  note R = resolve_desc_Inr [OF rd]
  from Suc(5) have nw: "in_num ob \<noteq> - 1"
    by (auto simp add: unsigned_minus_1_eq_mask mask_eq_exp_minus_1)
  have w1: "in_num ob' \<noteq> 0" if "?W (snd ?e)"
  proof -
    from that R have "in_num ob' = in_num ob + 1" by simp
    moreover from nw have "in_num ob + 1 \<noteq> 0" by (metis eq_neg_iff_add_eq_0)
    ultimately show ?thesis by simp
  qed
  have w0: "?W (snd ?e)" if "in_num ob \<noteq> 0"
    using that R by (auto split: if_splits)
  show ?case
  proof (cases "desc_flags (snd ?e) AND VRING_DESC_F_NEXT \<noteq> 0")
    case False
    with w0 show ?thesis by simp
  next
    case True
    from Suc(2) inc(1) have n: "unat count - unat (found + 1) = n" by simp
    have "unat (in_num ob') \<le> Suc (unat (in_num ob))"
      using R unat_inc_bound [of "in_num ob"] by (auto split: if_splits)
    with Suc(5) have bd: "unat (in_num ob') + n < 2 ^ 32" by simp
    note IH = Suc(1) [OF n inc(2) nx [OF True] bd]
    from IH w1 w0 True inc(1) show ?thesis
      by (auto simp add: list_ex_iff list_all_iff)
  qed
qed

lemma get_indirect_order:
  assumes "ret (get_indirect vring pos ob d) = Ret 0"
    and "unat (in_num ob) + Suc USHRT_MAX < 2 ^ 32"
  shows "\<not> out_after_in (table_chain vring d (unat (desc_len d) div sizeof_desc) 0) \<and>
         (in_num ob \<noteq> 0 \<longrightarrow>
            list_all (\<lambda>d. desc_flags d AND VRING_DESC_F_WRITE \<noteq> 0)
              (table_chain vring d (unat (desc_len d) div sizeof_desc) 0))"
proof -
  let ?c = "desc_len d div of_nat sizeof_desc"
  have u: "unat ?c = unat (desc_len d) div sizeof_desc"
    by (simp add: unat_div sizeof_desc_def)
  from assms(1) have c: "unat ?c \<le> Suc USHRT_MAX"
    and r: "ret (indirect_loop vring d ?c (0, pos, ob)) = Ret 0"
    by (auto simp add: get_indirect_def Let_def split: if_splits)
  from c assms(2) have "unat (in_num ob) + unat ?c < 2 ^ 32" by simp
  from indirect_loop_order [OF _ _ r this] show ?thesis by (simp add: u)
qed

lemma direct_chain_cong:
  "desc v = desc v' \<Longrightarrow> direct_chain v n i = direct_chain v' n i"
  by (induction n arbitrary: i) simp_all

lemma pop_loop_order:
  assumes big: "unat (num (vr vring)) + Suc USHRT_MAX < 2 ^ 32"
    and "pop_loop vring s = Some r" and "ret r = Ret 0"
    and "fst (snd s) \<le> num (vr vring)"
    and "unat (in_num (snd (snd (snd s)))) \<le> unat (fst (snd s))"
  shows "\<not> out_after_in (concat (map (expand vring)
            (direct_chain (vr vring) (unat (num (vr vring)) - unat (fst (snd s))) (fst s)))) \<and>
         (in_num (snd (snd (snd s))) \<noteq> 0 \<longrightarrow>
            list_all (\<lambda>d. desc_flags d AND VRING_DESC_F_WRITE \<noteq> 0)
              (concat (map (expand vring)
                 (direct_chain (vr vring) (unat (num (vr vring)) - unat (fst (snd s))) (fst s)))))"
  using assms(2-)
proof (induction "passes_left (num (vr vring)) (fst (snd s))" arbitrary: s rule: less_induct)
  case less
  obtain i found pos ob where s: "s = (i, found, pos, ob)" by (cases s) auto
  let ?d = "desc (vr vring) (unat i)"
  let ?n = "num (vr vring)"
  let ?W = "\<lambda>d. desc_flags d AND VRING_DESC_F_WRITE \<noteq> 0"
  from big have nm: "?n \<noteq> - 1"
    by (auto simp add: unsigned_minus_1_eq_mask mask_eq_exp_minus_1)
  from less(4) have fl: "found \<le> ?n" by (simp add: s)
  from fl nm have fm: "found \<noteq> - 1" by (rule le_not_max)
  from less(5) have il: "unat (in_num ob) \<le> unat found" by (simp add: s)
  from fl have "unat found \<le> unat ?n" by (simp add: word_le_nat_alt)
  with il big have ib: "unat (in_num ob) + Suc USHRT_MAX < 2 ^ 32" by simp
  then have inm: "in_num ob \<noteq> - 1"
    by (auto simp add: unsigned_minus_1_eq_mask mask_eq_exp_minus_1)
  have chain: "direct_chain (vr vring) (unat ?n - unat found) i =
       ?d # (if desc_flags ?d AND VRING_DESC_F_NEXT \<noteq> 0
        then direct_chain (vr vring) (unat ?n - unat (found + 1)) (ucast (desc_next ?d))
        else [])"
    if a: "found + 1 \<le> ?n"
  proof -
    from a have "unat (found + 1) \<le> unat ?n" by (simp add: word_le_nat_alt)
    with fm have "unat ?n - unat found = Suc (unat ?n - unat (found + 1))"
      by (simp add: unat_inc)
    then show ?thesis by simp
  qed
  show ?case
  proof (cases "pop_body vring s")
    case (Again s')
    obtain i' found' pos' ob' where s': "s' = (i', found', pos', ob')" by (cases s') auto
    note A = pop_body_Again [OF Again [unfolded s s']]
    note C = pop_body_Again_cases [OF Again [unfolded s s']]
    from less(2) Again have pl: "pop_loop vring s' = Some r"
      by (subst (asm) pop_loop.simps) simp
    from C show ?thesis
    proof
      assume "desc_flags ?d AND VRING_DESC_F_INDIRECT \<noteq> 0 \<and>
           i' = i \<and> pos' = pos \<and>
           ret (get_indirect vring pos ob ?d) = Ret 0 \<and>
           ob' = bufs (get_indirect vring pos ob ?d)"
      with A pop_loop_success [OF pl less(3)] show ?thesis by (simp add: s')
    next
      assume d: "desc_flags ?d AND VRING_DESC_F_INDIRECT = 0 \<and>
           i' = ucast (desc_next ?d) \<and> pos' = pos + 1 \<and>
           resolve_desc vring ?d Failed_to_map_desc Out_after_in pos ob = Inr ob'"
      then have rd: "resolve_desc vring ?d Failed_to_map_desc Out_after_in pos ob = Inr ob'"
        by simp
      note R = resolve_desc_Inr [OF rd]
      from A have f': "found' = found + 1" and le': "found + 1 \<le> ?n" by simp_all
      from left_decreases [OF nm le']
      have m: "passes_left ?n (fst (snd s')) < passes_left ?n (fst (snd s))"
        by (simp add: s s' f')
      have "unat (in_num ob') \<le> Suc (unat (in_num ob))"
        using R unat_inc_bound [of "in_num ob"] by (auto split: if_splits)
      with il fm have il': "unat (in_num ob') \<le> unat (found + 1)" by (simp add: unat_inc)
      note IH = less(1) [OF m pl less(3), unfolded s', simplified, OF _ il' [folded f']]
      have w1: "in_num ob' \<noteq> 0" if "?W ?d"
      proof -
        from that R have "in_num ob' = in_num ob + 1" by simp
        moreover from inm have "in_num ob + 1 \<noteq> 0" by (metis eq_neg_iff_add_eq_0)
        ultimately show ?thesis by simp
      qed
      have w0: "?W ?d" if "in_num ob \<noteq> 0"
        using that R by (auto split: if_splits)
      from IH le' f' d w1 w0 A show ?thesis
        by (auto simp add: s chain expand_def list_ex_iff list_all_iff)
    qed
  next
    case (Leave ob')
    note L = pop_body_Leave [OF Leave [unfolded s]]
    note C = pop_body_Leave_cases [OF Leave [unfolded s]]
    from L have le': "found + 1 \<le> ?n" by simp
    from C show ?thesis
    proof
      assume g: "desc_flags ?d AND VRING_DESC_F_INDIRECT \<noteq> 0 \<and>
           ret (get_indirect vring pos ob ?d) = Ret 0 \<and>
           ob' = bufs (get_indirect vring pos ob ?d)"
      then have "ret (get_indirect vring pos ob ?d) = Ret 0" by simp
      from get_indirect_order [OF this ib] g L show ?thesis
        by (simp add: s chain [OF le'] expand_def)
    next
      assume d: "desc_flags ?d AND VRING_DESC_F_INDIRECT = 0 \<and>
           resolve_desc vring ?d Failed_to_map_desc Out_after_in pos ob = Inr ob'"
      then have rd: "resolve_desc vring ?d Failed_to_map_desc Out_after_in pos ob = Inr ob'"
        by simp
      note R = resolve_desc_Inr [OF rd]
      have w0: "?W ?d" if "in_num ob \<noteq> 0"
        using that R by (auto split: if_splits)
      from d L w0 show ?thesis
        by (simp add: s chain [OF le'] expand_def)
    qed
  next
    case (Return r')
    with less(2) have "r = r'" by (subst (asm) pop_loop.simps) simp
    with pop_body_Return [OF Return [unfolded s]] less(3) show ?thesis by simp
  qed
qed

lemma table_chain_cong:
  "hostmem v = hostmem v' \<Longrightarrow> table_chain v d n k = table_chain v' d n k"
  by (induction n arbitrary: k) (simp_all add: table_entry_def)

lemma chain_descs_publish [simp]:
  "chain_descs (publish_avail_event vdev vring) h = chain_descs vring h"
proof -
  have "expand (publish_avail_event vdev vring) = expand vring"
    by (rule ext) (simp add: expand_def table_chain_cong [of "publish_avail_event vdev vring" vring])
  moreover have "direct_chain (vr (publish_avail_event vdev vring)) n h =
      direct_chain (vr vring) n h" for n
    by (rule direct_chain_cong) simp
  ultimately show ?thesis by (simp add: chain_descs_def)
qed

lemma popped_in_order:
  assumes "unat (num (vr vring)) + Suc USHRT_MAX < 2 ^ 32"
    and "vring_pop vdev vring ob = Some r" and "ret r = Ret h"
  shows "\<not> out_after_in (chain_descs vring (next_head vring))"
  using assms(2)
proof (cases rule: vring_pop_cases)
  case failed
  from pop_loop_framed [OF failed(5)] failed(6) assms(3) show ?thesis
    by (auto simp add: framed_def)
next
  case (popped r')
  let ?v = "publish_avail_event vdev vring"
  from assms(1) have big: "unat (num (vr ?v)) + Suc USHRT_MAX < 2 ^ 32" by simp
  from pop_loop_order [OF big popped(5,6)]
  have "\<not> out_after_in (chain_descs ?v (next_head vring))"
    by (simp add: chain_descs_def)
  then show ?thesis by simp
qed (use assms(3) in simp_all)

lemma out_after_in_rejected:
  assumes "unat (num (vr vring)) + Suc USHRT_MAX < 2 ^ 32"
    and "vring_pop vdev vring ob = Some r"
    and "avail_idx (avail (vr vring)) \<noteq> last_avail_idx vring"
    and "out_after_in (chain_descs vring (next_head vring))"
  shows "ret r = Fail EFAULT \<and> broken (vring_after r) \<or>
         ret r = Fail ENOBUFS \<and> \<not> broken (vring_after r) \<and>
           last_avail_idx (vring_after r) = last_avail_idx vring"
  using assms(2)
proof (cases rule: vring_pop_cases)
  case failed
  from pop_loop_framed [OF failed(5)] failed(1,6) show ?thesis
    by (auto simp add: framed_def)
next
  case (popped r')
  then have "ret r = Ret (next_head vring)" by simp
  from popped_in_order [OF assms(1,2) this] assms(4) show ?thesis by simp
qed (use assms(3) in simp_all)

lemma order_outcome:
  assumes "unat (num (vr vring)) + Suc USHRT_MAX < 2 ^ 32"
    and "vring_pop vdev vring ob = Some r"
    and "avail_idx (avail (vr vring)) \<noteq> last_avail_idx vring"
    and "out_after_in (chain_descs vring (next_head vring))"
  shows "ret r = Fail EFAULT \<and> broken (vring_after r) \<or>
         ret r = Fail ENOBUFS \<and> \<not> broken (vring_after r) \<and>
           last_avail_idx (vring_after r) = last_avail_idx vring \<and>
           (\<exists>n k. list_full_at vdev vring ob n k)"
proof -
  from out_after_in_rejected [OF assms] show ?thesis
  proof
    assume "ret r = Fail EFAULT \<and> broken (vring_after r)"
    then show ?thesis by simp
  next
    assume a: "ret r = Fail ENOBUFS \<and> \<not> broken (vring_after r) \<and>
           last_avail_idx (vring_after r) = last_avail_idx vring"
    then have "ret r = Fail ENOBUFS" by simp
    from enobufs_full [OF assms(2) this] a show ?thesis by simp
  qed
qed

text \<open>
  Claim C6, amended. For a queue size that leaves the counters of \<^verbatim>\<open>vring_pop\<close> room
  (\<open>num + 2^16 < 2^32\<close>), \<^verbatim>\<open>vring_pop\<close> returns a request only for a chain, direct or
  inside an indirect table, in which every write-flagged descriptor comes after every
  descriptor that is not write-flagged. For a pending chain with a descriptor that is
  not write-flagged after a write-flagged one it returns \<^verbatim>\<open>-EFAULT\<close> with \<open>broken\<close>
  set, or it returns \<^verbatim>\<open>-ENOBUFS\<close> with \<open>broken\<close> and \<open>last_avail_idx\<close> as they were,
  and then the list was full at a descriptor that the walk was to resolve.
\<close>

theorem out_after_in_never_popped:
  assumes "unat (num (vr vring)) + Suc USHRT_MAX < 2 ^ 32"
  shows "\<exists>r. vring_pop vdev vring ob = Some r \<and>
           ((\<exists>h. ret r = Ret h) \<longrightarrow> \<not> out_after_in (chain_descs vring (next_head vring))) \<and>
           (avail_idx (avail (vr vring)) \<noteq> last_avail_idx vring \<and>
            out_after_in (chain_descs vring (next_head vring)) \<longrightarrow>
              ret r = Fail EFAULT \<and> broken (vring_after r) \<or>
              ret r = Fail ENOBUFS \<and> \<not> broken (vring_after r) \<and>
                last_avail_idx (vring_after r) = last_avail_idx vring \<and>
                (\<exists>n k. list_full_at vdev vring ob n k))"
proof -
  from assms have "num (vr vring) \<noteq> - 1"
    by (auto simp add: unsigned_minus_1_eq_mask mask_eq_exp_minus_1)
  from vring_pop_terminates [OF this] obtain r where r: "vring_pop vdev vring ob = Some r"
    by blast
  have 1: "(\<exists>h. ret r = Ret h) \<longrightarrow> \<not> out_after_in (chain_descs vring (next_head vring))"
    using popped_in_order [OF assms r] by blast
  have 2: "avail_idx (avail (vr vring)) \<noteq> last_avail_idx vring \<and>
            out_after_in (chain_descs vring (next_head vring)) \<longrightarrow>
              ret r = Fail EFAULT \<and> broken (vring_after r) \<or>
              ret r = Fail ENOBUFS \<and> \<not> broken (vring_after r) \<and>
                last_avail_idx (vring_after r) = last_avail_idx vring \<and>
                (\<exists>n k. list_full_at vdev vring ob n k)"
    by (intro impI, elim conjE) (rule order_outcome [OF assms r])
  show ?thesis by (rule exI [of _ r], rule conjI [OF r], rule conjI [OF 1 2])
qed

lemma vring_in_out_chain:
  "out_after_in (chain_descs vring_in_out (next_head vring_in_out))"
proof -
  have "unat (num (vr vring_in_out)) = Suc (Suc (Suc (Suc 0)))"
    by (simp add: example_defs)
  moreover have "out_after_in (concat (map (expand vring_in_out)
      (direct_chain (vr vring_in_out) (Suc (Suc (Suc (Suc 0)))) (next_head vring_in_out))))"
    by (simp add: expand_def next_head_def example_defs
        VRING_DESC_F_NEXT_def VRING_DESC_F_WRITE_def VRING_DESC_F_INDIRECT_def)
  ultimately show ?thesis by (simp add: chain_descs_def)
qed

text \<open>
  Claim C6, as the spec has it: every chain with an out-descriptor after an
  in-descriptor is fatal. With room for one span, the walk over the chain of a
  write-flagged descriptor 0 and a device-readable descriptor 1 stops before the second
  one with \<^verbatim>\<open>-ENOBUFS\<close>, and \<open>broken\<close> stays clear.
\<close>

theorem out_after_in_with_no_room:
  "out_after_in (chain_descs vring_in_out (next_head vring_in_out)) \<and>
   \<not> broken vring_in_out \<and>
   vring_pop \<lparr>guest_features = 0\<rparr> vring_in_out (outbuf_of 1) =
     Some \<lparr>ret = Fail ENOBUFS, report = None,
           bufs = \<lparr>iov = [\<lparr>iov_base = 0x1000, iov_len = 16\<rparr>], out_num = 0, in_num = 1\<rparr>,
           vring_after = vring_in_out\<rparr>"
proof -
  have "\<not> broken vring_in_out" by (simp add: example_defs)
  moreover have "vring_pop \<lparr>guest_features = 0\<rparr> vring_in_out (outbuf_of 1) =
     Some \<lparr>ret = Fail ENOBUFS, report = None,
           bufs = \<lparr>iov = [\<lparr>iov_base = 0x1000, iov_len = 16\<rparr>], out_num = 0, in_num = 1\<rparr>,
           vring_after = vring_in_out\<rparr>"
    by (simp add: pop_defs example_defs pop_loop.simps word_le_nat_alt)
  ultimately show ?thesis using vring_in_out_chain by simp
qed

lemma vring_indirect_in_out_chain:
  "out_after_in (chain_descs vring_indirect_in_out (next_head vring_indirect_in_out))"
proof -
  have "unat (num (vr vring_indirect_in_out)) = Suc (Suc (Suc (Suc 0)))"
    by (simp add: example_defs)
  moreover have "unat (desc_len (desc (vr vring_indirect_in_out) 0)) div sizeof_desc = Suc (Suc 0)"
    by (simp add: example_defs sizeof_desc_def)
  moreover have "next_head vring_indirect_in_out = 0"
    by (simp add: next_head_def example_defs)
  moreover have "desc_flags (desc (vr vring_indirect_in_out) 0) AND VRING_DESC_F_NEXT = 0"
    "desc_flags (desc (vr vring_indirect_in_out) 0) AND VRING_DESC_F_INDIRECT \<noteq> 0"
    by (simp_all add: example_defs VRING_DESC_F_NEXT_def VRING_DESC_F_INDIRECT_def)
  moreover have "out_after_in (table_chain vring_indirect_in_out
      (desc (vr vring_indirect_in_out) 0) (Suc (Suc 0)) 0)"
    by (simp add: table_entry_def example_defs sizeof_desc_def
        VRING_DESC_F_NEXT_def VRING_DESC_F_WRITE_def)
  ultimately show ?thesis by (simp add: chain_descs_def expand_def)
qed

theorem out_after_in_never_popped_witness:
  "unat (num (vr vring_in_out)) + Suc USHRT_MAX < 2 ^ 32 \<and>
   avail_idx (avail (vr vring_in_out)) \<noteq> last_avail_idx vring_in_out \<and>
   out_after_in (chain_descs vring_in_out (next_head vring_in_out)) \<and>
   vring_pop \<lparr>guest_features = 0\<rparr> vring_in_out (outbuf_of 2) \<noteq> None \<and>
   ret (the (vring_pop \<lparr>guest_features = 0\<rparr> vring_in_out (outbuf_of 2))) = Fail EFAULT \<and>
   report (the (vring_pop \<lparr>guest_features = 0\<rparr> vring_in_out (outbuf_of 2))) = Some Out_after_in \<and>
   broken (vring_after (the (vring_pop \<lparr>guest_features = 0\<rparr> vring_in_out (outbuf_of 2)))) \<and>
   unat (num (vr vring_indirect_in_out)) + Suc USHRT_MAX < 2 ^ 32 \<and>
   avail_idx (avail (vr vring_indirect_in_out)) \<noteq> last_avail_idx vring_indirect_in_out \<and>
   out_after_in (chain_descs vring_indirect_in_out (next_head vring_indirect_in_out)) \<and>
   vring_pop \<lparr>guest_features = 0\<rparr> vring_indirect_in_out (outbuf_of 2) \<noteq> None \<and>
   ret (the (vring_pop \<lparr>guest_features = 0\<rparr> vring_indirect_in_out (outbuf_of 2))) = Fail EFAULT \<and>
   report (the (vring_pop \<lparr>guest_features = 0\<rparr> vring_indirect_in_out (outbuf_of 2)))
     = Some Indirect_out_after_in \<and>
   broken (vring_after (the (vring_pop \<lparr>guest_features = 0\<rparr> vring_indirect_in_out (outbuf_of 2)))) \<and>
   ret (the (vring_pop \<lparr>guest_features = 0\<rparr> vring_indirect_in_out (outbuf_of 1))) = Fail ENOBUFS \<and>
   (\<exists>n k. list_full_at \<lparr>guest_features = 0\<rparr> vring_indirect_in_out (outbuf_of 1) n k) \<and>
   unat (num (vr vring_out_in)) + Suc USHRT_MAX < 2 ^ 32 \<and>
   ret (the (vring_pop \<lparr>guest_features = 0\<rparr> vring_out_in (outbuf_of 2))) = Ret 0 \<and>
   out_num (bufs (the (vring_pop \<lparr>guest_features = 0\<rparr> vring_out_in (outbuf_of 2)))) = 1 \<and>
   in_num (bufs (the (vring_pop \<lparr>guest_features = 0\<rparr> vring_out_in (outbuf_of 2)))) = 1 \<and>
   \<not> out_after_in (chain_descs vring_out_in (next_head vring_out_in))"
proof -
  let ?vdev = "\<lparr>guest_features = 0\<rparr>"
  have a: "unat (num (vr vring_in_out)) + Suc USHRT_MAX < 2 ^ 32"
    by (simp add: example_defs USHRT_MAX_def)
  have b: "avail_idx (avail (vr vring_in_out)) \<noteq> last_avail_idx vring_in_out"
    by (simp add: example_defs)
  have c: "ret (the (vring_pop ?vdev vring_in_out (outbuf_of 2))) \<noteq> Fail ENOBUFS"
    "report (the (vring_pop ?vdev vring_in_out (outbuf_of 2))) = Some Out_after_in"
    unfolding outbuf_of_2
    by (simp_all add: pop_defs example_defs pop_loop.simps word_le_nat_alt)
  from out_after_in_never_popped [OF a, of ?vdev "outbuf_of 2"] b c vring_in_out_chain
  have d: "vring_pop ?vdev vring_in_out (outbuf_of 2) \<noteq> None \<and>
     ret (the (vring_pop ?vdev vring_in_out (outbuf_of 2))) = Fail EFAULT \<and>
     broken (vring_after (the (vring_pop ?vdev vring_in_out (outbuf_of 2))))"
    by auto
  have a2: "unat (num (vr vring_indirect_in_out)) + Suc USHRT_MAX < 2 ^ 32"
    by (simp add: example_defs USHRT_MAX_def)
  have b2: "avail_idx (avail (vr vring_indirect_in_out)) \<noteq> last_avail_idx vring_indirect_in_out"
    by (simp add: example_defs)
  have c2: "ret (the (vring_pop ?vdev vring_indirect_in_out (outbuf_of 2))) \<noteq> Fail ENOBUFS"
    "report (the (vring_pop ?vdev vring_indirect_in_out (outbuf_of 2))) = Some Indirect_out_after_in"
    unfolding outbuf_of_2
    by (simp_all add: pop_defs example_defs pop_loop.simps indirect_loop.simps
        word_le_nat_alt)
  from out_after_in_never_popped [OF a2, of ?vdev "outbuf_of 2"] b2 c2 vring_indirect_in_out_chain
  have d2: "vring_pop ?vdev vring_indirect_in_out (outbuf_of 2) \<noteq> None \<and>
     ret (the (vring_pop ?vdev vring_indirect_in_out (outbuf_of 2))) = Fail EFAULT \<and>
     broken (vring_after (the (vring_pop ?vdev vring_indirect_in_out (outbuf_of 2))))"
    by auto
  have c3: "ret (the (vring_pop ?vdev vring_indirect_in_out (outbuf_of 1))) = Fail ENOBUFS"
    by (simp add: pop_defs example_defs pop_loop.simps indirect_loop.simps
        word_le_nat_alt)
  from out_after_in_never_popped [OF a2, of ?vdev "outbuf_of 1"] b2 c3 vring_indirect_in_out_chain
  have d3: "\<exists>n k. list_full_at ?vdev vring_indirect_in_out (outbuf_of 1) n k"
    by auto
  have a4: "unat (num (vr vring_out_in)) + Suc USHRT_MAX < 2 ^ 32"
    by (simp add: example_defs USHRT_MAX_def)
  have c4: "ret (the (vring_pop ?vdev vring_out_in (outbuf_of 2))) = Ret 0"
    "out_num (bufs (the (vring_pop ?vdev vring_out_in (outbuf_of 2)))) = 1"
    "in_num (bufs (the (vring_pop ?vdev vring_out_in (outbuf_of 2)))) = 1"
    unfolding outbuf_of_2
    by (simp_all add: pop_defs example_defs pop_loop.simps word_le_nat_alt)
  from out_after_in_never_popped [OF a4, of ?vdev "outbuf_of 2"] c4(1)
  have d4: "\<not> out_after_in (chain_descs vring_out_in (next_head vring_out_in))"
    by auto
  from a b vring_in_out_chain c d a2 b2 vring_indirect_in_out_chain c2 d2 c3 d3 a4 c4 d4
  show ?thesis by simp
qed

section \<open>Notification decisions\<close>

text \<open>
  A bit number is never its own mask: the number \<open>e\<close> of a feature bit has bit \<open>e\<close>
  clear, so a device that negotiated only that feature fails the test
  \<^verbatim>\<open>guest_features & e\<close>.
\<close>

lemma bit_number_is_no_mask: "e < 32 \<Longrightarrow> (push_bit e 1 :: 32 word) AND of_nat e = 0"
proof (rule bit_eqI)
  fix n
  have "e < 2 ^ e" by simp
  then have "\<not> bit e e" by (simp add: bit_iff_odd)
  then show "bit ((push_bit e 1 :: 32 word) AND of_nat e) n = bit (0 :: 32 word) n"
    by (auto simp add: bit_simps)
qed

text \<open>What the two tests of \<^verbatim>\<open>vring_should_notify\<close> do as they are written.\<close>

lemma should_notify_on_empty_mask:
  "guest_features vdev AND of_nat VIRTIO_F_NOTIFY_ON_EMPTY \<noteq> 0 \<Longrightarrow>
   avail_idx (avail (vr vring)) = last_avail_idx vring \<Longrightarrow>
   vring_should_notify vdev vring = (True, vring)"
  by (simp add: vring_should_notify_def)

lemma should_notify_event_idx_mask:
  assumes "guest_features vdev AND of_nat VIRTIO_RING_F_EVENT_IDX \<noteq> 0"
    and "\<not> (guest_features vdev AND of_nat VIRTIO_F_NOTIFY_ON_EMPTY \<noteq> 0 \<and>
            avail_idx (avail (vr vring)) = last_avail_idx vring)"
  shows "snd (vring_should_notify vdev vring) =
           vring\<lparr>signalled_used := last_used_idx vring, signalled_used_valid := True\<rparr>"
    and "\<not> signalled_used_valid vring \<Longrightarrow> fst (vring_should_notify vdev vring)"
  using assms by (auto simp add: vring_should_notify_def Let_def)

text \<open>
  Claim C3. With the notify-on-empty feature negotiated and the avail ring empty,
  \<^verbatim>\<open>vring_should_notify\<close> is to return true whatever the suppression flag says. The
  code tests \<^verbatim>\<open>guest_features & 24\<close>: a guest that negotiated bit 24 alone, with an
  empty ring and \<^verbatim>\<open>VRING_AVAIL_F_NO_INTERRUPT\<close> set, gets no notification.
\<close>

theorem should_notify_on_empty_unshifted:
  "feature_negotiated \<lparr>guest_features = 0x1000000\<rparr> VIRTIO_F_NOTIFY_ON_EMPTY \<and>
   avail_idx (avail (vr vring_no_interrupt)) = last_avail_idx vring_no_interrupt \<and>
   vring_should_notify \<lparr>guest_features = 0x1000000\<rparr> vring_no_interrupt
     = (False, vring_no_interrupt)"
  by (simp add: feature_negotiated_def vring_should_notify_def VIRTIO_F_NOTIFY_ON_EMPTY_def
      VIRTIO_RING_F_EVENT_IDX_def VRING_AVAIL_F_NO_INTERRUPT_def vring_no_interrupt_def
      vring0_def)

text \<open>
  Claim C8. With the event-index feature negotiated and \<open>signalled_used_valid\<close> false,
  the first \<^verbatim>\<open>vring_should_notify\<close> is to return true and to set the baseline. The code
  tests \<^verbatim>\<open>guest_features & 29\<close>: a guest that negotiated bit 29 alone is served on the
  flag path, gets no notification when \<^verbatim>\<open>VRING_AVAIL_F_NO_INTERRUPT\<close> is set, and the
  baseline stays unset.
\<close>

theorem should_notify_first_call_unshifted:
  "feature_negotiated \<lparr>guest_features = 0x20000000\<rparr> VIRTIO_RING_F_EVENT_IDX \<and>
   \<not> signalled_used_valid vring_pending \<and>
   avail_idx (avail (vr vring_pending)) \<noteq> last_avail_idx vring_pending \<and>
   vring_should_notify \<lparr>guest_features = 0x20000000\<rparr> vring_pending = (False, vring_pending)"
  by (simp add: feature_negotiated_def vring_should_notify_def VIRTIO_F_NOTIFY_ON_EMPTY_def
      VIRTIO_RING_F_EVENT_IDX_def VRING_AVAIL_F_NO_INTERRUPT_def vring_pending_def vring0_def)

text \<open>
  Claim C10. In event-index mode a call that passes the notify-on-empty test is to
  store \<open>last_used_idx\<close> in \<open>signalled_used\<close> and to set \<open>signalled_used_valid\<close>, also
  when it returns false. With bit 29 alone negotiated the call returns false on the
  flag path and \<open>signalled_used\<close> keeps its old value 0, while \<open>last_used_idx\<close> is 5.
\<close>

theorem should_notify_no_update_unshifted:
  "feature_negotiated \<lparr>guest_features = 0x20000000\<rparr> VIRTIO_RING_F_EVENT_IDX \<and>
   avail_idx (avail (vr vring_pending)) \<noteq> last_avail_idx vring_pending \<and>
   fst (vring_should_notify \<lparr>guest_features = 0x20000000\<rparr>
          (vring_pending\<lparr>signalled_used_valid := True\<rparr>)) = False \<and>
   signalled_used (snd (vring_should_notify \<lparr>guest_features = 0x20000000\<rparr>
          (vring_pending\<lparr>signalled_used_valid := True\<rparr>))) = 0 \<and>
   last_used_idx (snd (vring_should_notify \<lparr>guest_features = 0x20000000\<rparr>
          (vring_pending\<lparr>signalled_used_valid := True\<rparr>))) = 5"
  by (simp add: feature_negotiated_def vring_should_notify_def VIRTIO_F_NOTIFY_ON_EMPTY_def
      VIRTIO_RING_F_EVENT_IDX_def VRING_AVAIL_F_NO_INTERRUPT_def vring_pending_def vring0_def)

section \<open>Publishing a completion\<close>

text \<open>
  The test of \<^verbatim>\<open>vring_push\<close>, \<^verbatim>\<open>(int16_t)(new - signalled_used) < (uint16_t)1\<close>, on
  unsigned terms: the difference is 0 or at least \<open>2^15\<close>.
\<close>

lemma sint_negative_16:
  fixes d :: "16 word"
  shows "sint d < 0 \<longleftrightarrow> 2 ^ 15 \<le> unat d"
proof -
  have "sint d < 0 \<longleftrightarrow> bit (unat d) 15"
    by (simp add: sint_uint bit_uint_iff bit_unsigned_iff)
  also have "\<dots> \<longleftrightarrow> odd (unat d div 2 ^ 15)" by (simp add: bit_iff_odd)
  also have "\<dots> \<longleftrightarrow> 2 ^ 15 \<le> unat d"
  proof (cases "unat d < 2 ^ 15")
    case True
    then show ?thesis by (simp only: div_less not_le [symmetric]) simp
  next
    case False
    have "unat d < 2 ^ 16" using unsigned_less [of d] by simp
    then have "unat d < 2 ^ 15 * Suc 1" by simp
    moreover from False have "2 ^ 15 * 1 \<le> unat d" by simp
    ultimately have "unat d div 2 ^ 15 = 1" by (rule div_nat_eqI [rotated])
    with False show ?thesis by (simp only: not_less) simp
  qed
  finally show ?thesis .
qed

lemma sint_below_one:
  fixes d :: "16 word"
  shows "sint d < 1 \<longleftrightarrow> d = 0 \<or> 2 ^ 15 \<le> unat d"
proof -
  have "sint d < 1 \<longleftrightarrow> sint d = 0 \<or> sint d < 0" by arith
  then have "sint d < 1 \<longleftrightarrow> d = 0 \<or> sint d < 0" by (simp add: signed_eq_0_iff)
  then show ?thesis by (simp only: sint_negative_16)
qed

text \<open>
  Claim C2, as the spec has it: \<open>signalled_used_valid\<close> is cleared when the new
  \<open>last_used_idx\<close> has advanced past \<open>signalled_used\<close> by at least one. On a fresh
  queue with a valid baseline the first push moves the index from 0 to 1, one past
  \<open>signalled_used = 0\<close>, and the flag stays set.
\<close>

theorem push_keeps_valid_after_advance:
  "last_used_idx (the (vring_push (vring0\<lparr>signalled_used_valid := True\<rparr>) 2 512))
     - signalled_used (vring0\<lparr>signalled_used_valid := True\<rparr>) = 1 \<and>
   signalled_used_valid (the (vring_push (vring0\<lparr>signalled_used_valid := True\<rparr>) 2 512))"
  by (simp add: vring_push_def vring0_def Let_def)

text \<open>
  Claim C2, amended. After a push on a queue that is not broken,
  \<open>signalled_used_valid\<close> is cleared exactly when the 16-bit difference between the
  new \<open>last_used_idx\<close> and \<open>signalled_used\<close>, read as a signed number, is below 1 (the
  new index is not ahead of the signalled one); otherwise it is unchanged. So the
  flag is set afterwards exactly when it was set before and the new index is between
  1 and \<open>2^15 - 1\<close> ahead of \<open>signalled_used\<close>.
\<close>

theorem vring_push_signalled_used_valid:
  assumes "\<not> broken vring" and "num (vr vring) \<noteq> 0"
  shows "\<exists>vring'. vring_push vring head len = Some vring' \<and>
           last_used_idx vring' = last_used_idx vring + 1 \<and>
           signalled_used_valid vring' =
             (if sint (last_used_idx vring + 1 - signalled_used vring) < 1 then False
              else signalled_used_valid vring) \<and>
           signalled_used_valid vring' =
             (signalled_used_valid vring \<and>
              last_used_idx vring + 1 \<noteq> signalled_used vring \<and>
              unat (last_used_idx vring + 1 - signalled_used vring) < 2 ^ 15)"
proof -
  have "sint (last_used_idx vring + 1 - signalled_used vring) < 1 \<longleftrightarrow>
      last_used_idx vring + 1 = signalled_used vring \<or>
      2 ^ 15 \<le> unat (last_used_idx vring + 1 - signalled_used vring)"
    by (simp add: sint_below_one)
  with assms show ?thesis by (auto simp add: vring_push_def Let_def)
qed

theorem vring_push_signalled_used_valid_witness:
  "\<not> broken vring0 \<and> num (vr vring0) \<noteq> 0 \<and>
   vring_push (vring0\<lparr>signalled_used_valid := True\<rparr>) 2 512 \<noteq> None \<and>
   signalled_used_valid (the (vring_push (vring0\<lparr>signalled_used_valid := True\<rparr>) 2 512)) \<and>
   vring_push (vring0\<lparr>signalled_used := 1, signalled_used_valid := True\<rparr>) 2 512 \<noteq> None \<and>
   \<not> signalled_used_valid
       (the (vring_push (vring0\<lparr>signalled_used := 1, signalled_used_valid := True\<rparr>) 2 512)) \<and>
   vring_push (vring0\<lparr>signalled_used := 5, signalled_used_valid := True\<rparr>) 2 512 \<noteq> None \<and>
   \<not> signalled_used_valid
       (the (vring_push (vring0\<lparr>signalled_used := 5, signalled_used_valid := True\<rparr>) 2 512)) \<and>
   vring_push (vring0\<lparr>last_used_idx := 0xFFFF, signalled_used := 0xFFFE,
                      signalled_used_valid := True\<rparr>) 2 512 \<noteq> None \<and>
   last_used_idx (the (vring_push (vring0\<lparr>last_used_idx := 0xFFFF, signalled_used := 0xFFFE,
                      signalled_used_valid := True\<rparr>) 2 512)) = 0 \<and>
   signalled_used_valid
       (the (vring_push (vring0\<lparr>last_used_idx := 0xFFFF, signalled_used := 0xFFFE,
                      signalled_used_valid := True\<rparr>) 2 512)) \<and>
   vring_push vring0 2 512 \<noteq> None \<and>
   \<not> signalled_used_valid (the (vring_push vring0 2 512))"
proof -
  let ?a = "vring0\<lparr>signalled_used_valid := True\<rparr>"
  let ?b = "vring0\<lparr>signalled_used := 1, signalled_used_valid := True\<rparr>"
  let ?c = "vring0\<lparr>signalled_used := 5, signalled_used_valid := True\<rparr>"
  let ?d = "vring0\<lparr>last_used_idx := 0xFFFF, signalled_used := 0xFFFE,
                      signalled_used_valid := True\<rparr>"
  have n: "\<not> broken vring0" "num (vr vring0) \<noteq> 0" by (simp_all add: vring0_def)
  have na: "\<not> broken ?a" "num (vr ?a) \<noteq> 0" by (simp_all add: vring0_def)
  have nb: "\<not> broken ?b" "num (vr ?b) \<noteq> 0" by (simp_all add: vring0_def)
  have nc: "\<not> broken ?c" "num (vr ?c) \<noteq> 0" by (simp_all add: vring0_def)
  have nd: "\<not> broken ?d" "num (vr ?d) \<noteq> 0" by (simp_all add: vring0_def)
  have va: "last_used_idx ?a + 1 \<noteq> signalled_used ?a"
    "unat (last_used_idx ?a + 1 - signalled_used ?a) < 2 ^ 15" "signalled_used_valid ?a"
    by (simp_all add: vring0_def)
  have vb: "last_used_idx ?b + 1 = signalled_used ?b" by (simp add: vring0_def)
  have vc: "\<not> unat (last_used_idx ?c + 1 - signalled_used ?c) < 2 ^ 15"
    by (simp add: vring0_def)
  have vd: "last_used_idx ?d + 1 = 0" "last_used_idx ?d + 1 \<noteq> signalled_used ?d"
    "unat (last_used_idx ?d + 1 - signalled_used ?d) < 2 ^ 15" "signalled_used_valid ?d"
    by (simp_all add: vring0_def)
  have v0: "\<not> signalled_used_valid vring0" by (simp add: vring0_def)
  from vring_push_signalled_used_valid [OF na, of 2 512] va
  have 1: "vring_push ?a 2 512 \<noteq> None \<and> signalled_used_valid (the (vring_push ?a 2 512))"
    by auto
  from vring_push_signalled_used_valid [OF nb, of 2 512] vb
  have 2: "vring_push ?b 2 512 \<noteq> None \<and> \<not> signalled_used_valid (the (vring_push ?b 2 512))"
    by auto
  from vring_push_signalled_used_valid [OF nc, of 2 512] vc
  have 3: "vring_push ?c 2 512 \<noteq> None \<and> \<not> signalled_used_valid (the (vring_push ?c 2 512))"
    by auto
  from vring_push_signalled_used_valid [OF nd, of 2 512] vd
  have 4: "vring_push ?d 2 512 \<noteq> None \<and> last_used_idx (the (vring_push ?d 2 512)) = 0 \<and>
     signalled_used_valid (the (vring_push ?d 2 512))"
    by auto
  from vring_push_signalled_used_valid [OF n, of 2 512] v0
  have 5: "vring_push vring0 2 512 \<noteq> None \<and> \<not> signalled_used_valid (the (vring_push vring0 2 512))"
    by auto
  from n 1 2 3 4 5 show ?thesis by simp
qed

text \<open>
  Claim C7. On a queue that is not broken, \<^verbatim>\<open>vring_push\<close> writes the pair
  \<open>(head, len)\<close> into the used ring at the old \<open>last_used_idx mod num\<close> and sets
  \<open>used.idx\<close> to the old \<open>last_used_idx + 1\<close> (mod \<open>2^16\<close>), which is the new
  \<open>last_used_idx\<close>: where \<open>used.idx\<close> was the old \<open>last_used_idx\<close>, as every push
  leaves it, it is one more than before.
\<close>

theorem vring_push_round_trip:
  assumes "\<not> broken vring" and "num (vr vring) \<noteq> 0"
  shows "\<exists>vring'. vring_push vring head len = Some vring' \<and>
           used_ring (used (vr vring')) (unat (last_used_idx vring) mod unat (num (vr vring)))
             = \<lparr>elem_id = head, elem_len = len\<rparr> \<and>
           used_idx (used (vr vring')) = last_used_idx vring + 1 \<and>
           last_used_idx vring' = last_used_idx vring + 1 \<and>
           used_idx (used (vr vring')) = last_used_idx vring' \<and>
           (used_idx (used (vr vring)) = last_used_idx vring \<longrightarrow>
              used_idx (used (vr vring')) = used_idx (used (vr vring)) + 1)"
  using assms by (simp add: vring_push_def Let_def)

theorem vring_push_round_trip_witness:
  "\<not> broken vring0 \<and> num (vr vring0) \<noteq> 0 \<and>
   used_idx (used (vr vring0)) = last_used_idx vring0 \<and>
   (\<exists>vring'. vring_push vring0 2 512 = Some vring' \<and>
           used_ring (used (vr vring')) (unat (last_used_idx vring0) mod unat (num (vr vring0)))
             = \<lparr>elem_id = 2, elem_len = 512\<rparr> \<and>
           used_idx (used (vr vring')) = last_used_idx vring0 + 1 \<and>
           last_used_idx vring' = last_used_idx vring0 + 1 \<and>
           used_idx (used (vr vring')) = used_idx (used (vr vring0)) + 1)"
proof -
  have a: "\<not> broken vring0" and b: "num (vr vring0) \<noteq> 0"
    and c: "used_idx (used (vr vring0)) = last_used_idx vring0"
    by (simp_all add: vring0_def)
  from vring_push_round_trip [OF a b, of 2 512] a b c show ?thesis by auto
qed

text \<open>
  The spec's scenario, popped and pushed: \<^verbatim>\<open>vring_pop\<close> returns head 2 with one
  write span of 512 bytes and advances \<open>last_avail_idx\<close>, and \<^verbatim>\<open>vring_push(2, 512)\<close> on
  the queue it leaves sets \<^verbatim>\<open>used.ring[0] = (2, 512)\<close> and \<^verbatim>\<open>used.idx = 1\<close>.
\<close>

lemma scenario_round_trip:
  "vring_pop \<lparr>guest_features = 0\<rparr> vring_scenario (outbuf_of 1) =
     Some \<lparr>ret = Ret 2, report = None,
           bufs = \<lparr>iov = [\<lparr>iov_base = 0x8000, iov_len = 512\<rparr>], out_num = 0, in_num = 1\<rparr>,
           vring_after = vring_scenario\<lparr>last_avail_idx := 1\<rparr>\<rparr>"
  "used_ring (used (vr (the (vring_push (vring_scenario\<lparr>last_avail_idx := 1\<rparr>) 2 512)))) 0 =
     \<lparr>elem_id = 2, elem_len = 512\<rparr>"
  "used_idx (used (vr (the (vring_push (vring_scenario\<lparr>last_avail_idx := 1\<rparr>) 2 512)))) = 1"
  by (simp_all add: pop_defs example_defs pop_loop.simps vring_push_def word_le_nat_alt)

end
